theory Spec2Isabelle
  imports Main "HOL-Library.Signed_Division"
begin

section \<open>Field arithmetic\<close>

text \<open>
  The BN254 scalar field modulus, as the sources spell it out (\<open>bn_254_fp\<close> in the
  TypeScript modules, \<open>FIELD_PRIME\<close> in the JavaScript helpers).
\<close>

definition bn_254_fp :: int where
  "bn_254_fp = 21888242871839275222246405745257275088548364400416034343698204186575808495617"

text \<open>
  \<^verbatim>\<open>const mod = (x, f = bn_254_fp) => { const result = x % f; return result >= 0n ? result : result + f }\<close>

  The \<open>%\<close> of a JavaScript bigint truncates towards zero: it is \<open>smod\<close>, not the
  floored \<open>mod\<close> of HOL.
\<close>

definition mod_f :: "int \<Rightarrow> int \<Rightarrow> int" where
  "mod_f x f = (let result = x smod f in if result \<ge> 0 then result else result + f)"

abbreviation modp :: "int \<Rightarrow> int" where
  "modp x \<equiv> mod_f x bn_254_fp"

section \<open>Polynomial commitment\<close>

definition MAX_POLY_DEGREE :: nat where
  "MAX_POLY_DEGREE = 128"

definition initial_polynomial :: "int list" where
  "initial_polynomial = [1]"

text \<open>
  One iteration of the loop body shared by \<open>addRoot\<close> and \<open>interpolatePolynomial\<close>:
  \<^verbatim>\<open>newPoly[i + 1] = mod(newPoly[i + 1] + oldPoly[i]); newPoly[i] = mod(newPoly[i] - mod(oldPoly[i] * newRoot))\<close>
  Both indices are inside \<open>newPoly\<close>, whose length is \<open>oldPoly.length + 1\<close>.
\<close>

definition addRoot_body :: "int list \<Rightarrow> int \<Rightarrow> nat \<Rightarrow> int list \<Rightarrow> int list" where
  "addRoot_body oldPoly newRoot i newPoly =
     (let newPoly1 = newPoly[i + 1 := modp (newPoly ! (i + 1) + oldPoly ! i)]
      in newPoly1[i := modp (newPoly1 ! i - modp (oldPoly ! i * newRoot))])"

definition addRoot :: "int list \<Rightarrow> int \<Rightarrow> int list" where
  "addRoot oldPoly newRoot =
     fold (addRoot_body oldPoly newRoot) [0 ..< length oldPoly]
       (replicate (length oldPoly + 1) 0)"

text \<open>
  \<open>interpolatePolynomial\<close> carries its own copy of the multiplication loop; the model
  keeps the two functions apart, as the source does.
\<close>

definition interpolate_step :: "int list \<Rightarrow> int \<Rightarrow> int list" where
  "interpolate_step polynomial root =
     fold (\<lambda>i newPolynomial.
             let newPolynomial1 =
                   newPolynomial[i + 1 := modp (newPolynomial ! (i + 1) + polynomial ! i)]
             in newPolynomial1[i := modp (newPolynomial1 ! i - modp (polynomial ! i * root))])
       [0 ..< length polynomial]
       (replicate (length polynomial + 1) 0)"

definition interpolatePolynomial :: "int list \<Rightarrow> int list" where
  "interpolatePolynomial roots = foldl interpolate_step [1] roots"

text \<open>
  \<open>removeRoot\<close> throws on a polynomial of degree \<open>\<le> 0\<close>, returns \<open>null\<close> when the
  remainder of the synthetic division is nonzero, and the quotient otherwise. The loop
  runs \<open>i\<close> from \<open>n\<close> down to \<open>0\<close>; the recursion below is on that \<open>i\<close>.
\<close>

datatype poly_error = DegreeTooLow

fun removeRoot_loop :: "int list \<Rightarrow> int \<Rightarrow> nat \<Rightarrow> int list \<Rightarrow> int \<Rightarrow> int list option" where
  "removeRoot_loop oldPoly rootToRemove 0 newPoly carry =
     (let coeff = modp (oldPoly ! 0 + carry)
      in if coeff \<noteq> 0 then None else Some newPoly)"
| "removeRoot_loop oldPoly rootToRemove (Suc k) newPoly carry =
     (let coeff = modp (oldPoly ! Suc k + carry);
          newPoly1 = newPoly[k := coeff];
          carry1 = modp (coeff * rootToRemove)
      in removeRoot_loop oldPoly rootToRemove k newPoly1 carry1)"

definition removeRoot :: "int list \<Rightarrow> int \<Rightarrow> poly_error + int list option" where
  "removeRoot oldPoly rootToRemove =
     (let n = int (length oldPoly) - 1
      in if n \<le> 0 then Inl DegreeTooLow
         else Inr (removeRoot_loop oldPoly rootToRemove (nat n) (replicate (nat n) 0) 0))"

text \<open>
  \<open>verifyPolynomial\<close> evaluates the polynomial at \<open>root\<close> with running powers and
  answers whether the value is zero in the field. The loop state is
  \<open>(result, rootPower)\<close>.
\<close>

definition evaluate :: "int list \<Rightarrow> int \<Rightarrow> int" where
  "evaluate coefficients root =
     fst (fold (\<lambda>coeff (result, rootPower).
                  (modp (result + modp (coeff * rootPower)), modp (rootPower * root)))
            coefficients (0, 1))"

definition verifyPolynomial :: "int list \<Rightarrow> int \<Rightarrow> bool" where
  "verifyPolynomial coefficients root = (evaluate coefficients root = 0)"

section \<open>Incremental Merkle tree\<close>

definition TREE_DEPTH :: nat where
  "TREE_DEPTH = 20"

definition MAX_LEAVES :: nat where
  "MAX_LEAVES = 2 ^ TREE_DEPTH"

text \<open>
  The Poseidon2 permutation comes from the package \<open>@zkpassport/poseidon2\<close>; it is not
  part of the repository. Every function that hashes takes it as the parameter \<open>H\<close>,
  a function from a list of field elements to one value. The wrapper \<open>poseidon2\<close> of the
  source reduces the inputs and the result.
\<close>

type_synonym hash_prim = "int list \<Rightarrow> int"

definition poseidon2 :: "hash_prim \<Rightarrow> int list \<Rightarrow> int" where
  "poseidon2 H inputs = (let normalized = map modp inputs; result = H normalized in modp result)"

definition hashLeaf :: "hash_prim \<Rightarrow> int \<Rightarrow> int" where
  "hashLeaf H secret = poseidon2 H [secret]"

definition hashPair :: "hash_prim \<Rightarrow> int \<Rightarrow> int \<Rightarrow> int" where
  "hashPair H left right = poseidon2 H [left, right]"

definition getZeroValue :: "hash_prim \<Rightarrow> int" where
  "getZeroValue H = poseidon2 H [0]"

text \<open>
  \<open>computeZeroHashes\<close> fills an array of \<open>TREE_DEPTH + 1\<close> slots from index 0 upwards.
  The slots of \<open>new Array(n)\<close> are modelled by a placeholder that is overwritten before
  it is read.
\<close>

definition computeZeroHashes :: "hash_prim \<Rightarrow> int list" where
  "computeZeroHashes H =
     fold (\<lambda>i zeroHashes.
             zeroHashes[i := hashPair H (zeroHashes ! (i - 1)) (zeroHashes ! (i - 1))])
       [1 ..< TREE_DEPTH + 1]
       ((replicate (TREE_DEPTH + 1) 0)[0 := getZeroValue H])"

definition ZERO_HASHES :: "hash_prim \<Rightarrow> int list" where
  "ZERO_HASHES H = computeZeroHashes H"

text \<open>
  The class \<open>IncrementalMerkleTree\<close> of \<open>merkle_tree.ts\<close>. (The test data generator
  carries a shorter JavaScript class of the same name, with the same \<open>updatePath\<close>,
  \<open>getRoot\<close> and path loop but no capacity test in \<open>insert\<close>, no index test in
  \<open>getMerklePath\<close> and no \<open>update\<close> or \<open>delete\<close>; the model follows the TypeScript
  class.) The array \<open>leaves\<close> is only read and written by
  index, and a JavaScript array answers \<open>undefined\<close> at an index never assigned: it is a
  partial map from indices. The cache \<open>nodes\<close> is a \<open>Map\<close> keyed by the string
  \<open>level:index\<close>, which determines the pair \<open>(level, index)\<close>; the model keys it by the
  pair.
\<close>

record IncrementalMerkleTree =
  leaves :: "nat \<rightharpoonup> int"
  nodes :: "nat \<times> nat \<rightharpoonup> int"
  nextIndex :: nat

datatype imt_error = TreeFull | InvalidIndex | HashInputUndefined

definition new_tree :: IncrementalMerkleTree where
  "new_tree = \<lparr>leaves = Map.empty, nodes = Map.empty, nextIndex = 0\<rparr>"

definition getNodeKey :: "nat \<Rightarrow> nat \<Rightarrow> nat \<times> nat" where
  "getNodeKey level index = (level, index)"

definition getNode :: "(nat \<times> nat \<rightharpoonup> int) \<Rightarrow> nat \<Rightarrow> nat \<Rightarrow> int option" where
  "getNode nds level index = nds (getNodeKey level index)"

definition setNode :: "(nat \<times> nat \<rightharpoonup> int) \<Rightarrow> nat \<Rightarrow> nat \<Rightarrow> int \<Rightarrow> (nat \<times> nat \<rightharpoonup> int)" where
  "setNode nds level index v = nds(getNodeKey level index \<mapsto> v)"

text \<open>
  The sibling read shared by \<open>updatePath\<close> and \<open>getMerklePath\<close>:
  \<^verbatim>\<open>level === 0 ? this.leaves[siblingIndex] ?? getZeroValue() : this.getNode(level, siblingIndex) ?? ZERO_HASHES[level]\<close>
\<close>

definition siblingHash_at ::
  "hash_prim \<Rightarrow> (nat \<rightharpoonup> int) \<Rightarrow> (nat \<times> nat \<rightharpoonup> int) \<Rightarrow> nat \<Rightarrow> nat \<Rightarrow> int" where
  "siblingHash_at H lvs nds level siblingIndex =
     (if level = 0
      then (case lvs siblingIndex of Some v \<Rightarrow> v | None \<Rightarrow> getZeroValue H)
      else (case getNode nds level siblingIndex of Some v \<Rightarrow> v | None \<Rightarrow> ZERO_HASHES H ! level))"

text \<open>
  One iteration of the loop of \<open>updatePath\<close>, on the loop state
  \<open>(currentIndex, currentHash, nodes)\<close>.
\<close>

definition updatePath_body ::
  "hash_prim \<Rightarrow> (nat \<rightharpoonup> int) \<Rightarrow> nat \<Rightarrow> nat \<times> int \<times> (nat \<times> nat \<rightharpoonup> int)
     \<Rightarrow> nat \<times> int \<times> (nat \<times> nat \<rightharpoonup> int)" where
  "updatePath_body H lvs level st =
     (case st of (currentIndex, currentHash, nds) \<Rightarrow>
        let isRight = (currentIndex mod 2 = 1);
            siblingIndex = (if isRight then currentIndex - 1 else currentIndex + 1);
            parentIndex = currentIndex div 2;
            siblingHash = siblingHash_at H lvs nds level siblingIndex;
            (left, right) = (if isRight then (siblingHash, currentHash)
                             else (currentHash, siblingHash));
            parentHash = hashPair H left right
        in (parentIndex, parentHash, setNode nds (level + 1) parentIndex parentHash))"

text \<open>
  \<open>updatePath\<close> starts from \<open>this.leaves[index]\<close>. Were that slot unassigned, the first
  hash would be called on \<open>undefined\<close> and throw before any node is stored; \<open>insert\<close>
  and \<open>update\<close> assign the slot just before the call.
\<close>

definition updatePath ::
  "hash_prim \<Rightarrow> IncrementalMerkleTree \<Rightarrow> nat \<Rightarrow> imt_error + IncrementalMerkleTree" where
  "updatePath H t index =
     (case leaves t index of
        None \<Rightarrow> Inl HashInputUndefined
      | Some leaf \<Rightarrow>
          (case fold (updatePath_body H (leaves t)) [0 ..< TREE_DEPTH] (index, leaf, nodes t) of
             (currentIndex, currentHash, nds) \<Rightarrow> Inr (t\<lparr>nodes := nds\<rparr>)))"

text \<open>
  The public operations return their outcome together with the tree as it is after the
  call, so that what a failing call leaves behind is part of the model.
\<close>

definition insert_leaf ::
  "hash_prim \<Rightarrow> IncrementalMerkleTree \<Rightarrow> int \<Rightarrow> (imt_error + nat) \<times> IncrementalMerkleTree" where
  "insert_leaf H t leaf =
     (if nextIndex t \<ge> MAX_LEAVES then (Inl TreeFull, t)
      else let index = nextIndex t;
               t1 = t\<lparr>leaves := (leaves t)(index \<mapsto> leaf)\<rparr>
           in case updatePath H t1 index of
                Inl e \<Rightarrow> (Inl e, t1)
              | Inr t2 \<Rightarrow> (Inr index, t2\<lparr>nextIndex := nextIndex t2 + 1\<rparr>))"

definition insertMember ::
  "hash_prim \<Rightarrow> IncrementalMerkleTree \<Rightarrow> int \<Rightarrow> (imt_error + nat) \<times> IncrementalMerkleTree" where
  "insertMember H t secret = insert_leaf H t (hashLeaf H secret)"

definition update ::
  "hash_prim \<Rightarrow> IncrementalMerkleTree \<Rightarrow> int \<Rightarrow> int \<Rightarrow> (imt_error + unit) \<times> IncrementalMerkleTree" where
  "update H t index newLeaf =
     (if index < 0 \<or> index \<ge> int (nextIndex t) then (Inl InvalidIndex, t)
      else let t1 = t\<lparr>leaves := (leaves t)(nat index \<mapsto> newLeaf)\<rparr>
           in case updatePath H t1 (nat index) of
                Inl e \<Rightarrow> (Inl e, t1)
              | Inr t2 \<Rightarrow> (Inr (), t2))"

definition delete ::
  "hash_prim \<Rightarrow> IncrementalMerkleTree \<Rightarrow> int \<Rightarrow> (imt_error + unit) \<times> IncrementalMerkleTree" where
  "delete H t index = update H t index (getZeroValue H)"

definition getRoot :: "hash_prim \<Rightarrow> IncrementalMerkleTree \<Rightarrow> int" where
  "getRoot H t =
     (if nextIndex t = 0 then ZERO_HASHES H ! TREE_DEPTH
      else (case getNode (nodes t) TREE_DEPTH 0 of
              Some v \<Rightarrow> v
            | None \<Rightarrow> ZERO_HASHES H ! TREE_DEPTH))"

text \<open>
  One iteration of the loop of \<open>getMerklePath\<close>, on the loop state
  \<open>(currentIndex, path, pathIndices)\<close>.
\<close>

definition getMerklePath_body ::
  "hash_prim \<Rightarrow> IncrementalMerkleTree \<Rightarrow> nat \<Rightarrow> nat \<times> int list \<times> int list
     \<Rightarrow> nat \<times> int list \<times> int list" where
  "getMerklePath_body H t level st =
     (case st of (currentIndex, path, pathIndices) \<Rightarrow>
        let isRight = (currentIndex mod 2 = 1);
            siblingIndex = (if isRight then currentIndex - 1 else currentIndex + 1);
            siblingHash = siblingHash_at H (leaves t) (nodes t) level siblingIndex
        in (currentIndex div 2, path @ [siblingHash],
            pathIndices @ [if isRight then 1 else 0]))"

definition getMerklePath ::
  "hash_prim \<Rightarrow> IncrementalMerkleTree \<Rightarrow> int \<Rightarrow> imt_error + int list \<times> int list" where
  "getMerklePath H t index =
     (if index < 0 \<or> index \<ge> int (nextIndex t) then Inl InvalidIndex
      else (case fold (getMerklePath_body H t) [0 ..< TREE_DEPTH] (nat index, [], []) of
              (currentIndex, path, pathIndices) \<Rightarrow> Inr (path, pathIndices)))"

definition getLeaf :: "IncrementalMerkleTree \<Rightarrow> nat \<Rightarrow> int option" where
  "getLeaf t index = leaves t index"

text \<open>
  \<open>verifyMerkleProof\<close>. The run returns the answer together with the argument pairs of
  the calls of \<open>hashPair\<close> it made, in order, so that whether a hash was evaluated can be
  stated. \<open>index\<close> is an integer-valued number. The first loop, on the state
  \<open>(reconstructedIndex, powerOfTwo)\<close>, rebuilds the index from the direction bits; the
  second, on \<open>currentHash\<close>, replays the hashes.
\<close>

definition reconstructIndex_body :: "int list \<Rightarrow> nat \<Rightarrow> int \<times> int \<Rightarrow> int \<times> int" where
  "reconstructIndex_body pathIndices i st =
     (case st of (reconstructedIndex, powerOfTwo) \<Rightarrow>
        (reconstructedIndex + pathIndices ! i * powerOfTwo, powerOfTwo * 2))"

definition verifyMerkleProof_body ::
  "hash_prim \<Rightarrow> int list \<Rightarrow> int list \<Rightarrow> nat \<Rightarrow> int \<times> (int \<times> int) list
     \<Rightarrow> int \<times> (int \<times> int) list" where
  "verifyMerkleProof_body H path pathIndices i st =
     (case st of (currentHash, calls) \<Rightarrow>
        let isRight = (pathIndices ! i = 1);
            (left, right) = (if isRight then (path ! i, currentHash)
                             else (currentHash, path ! i))
        in (hashPair H left right, calls @ [(left, right)]))"

definition verifyMerkleProof_run ::
  "hash_prim \<Rightarrow> int \<Rightarrow> int \<Rightarrow> int list \<Rightarrow> int list \<Rightarrow> int \<Rightarrow> bool \<times> (int \<times> int) list" where
  "verifyMerkleProof_run H leaf index path pathIndices root =
     (if length path \<noteq> TREE_DEPTH \<or> length pathIndices \<noteq> TREE_DEPTH then (False, [])
      else
        (case fold (reconstructIndex_body pathIndices) [0 ..< TREE_DEPTH] (0, 1) of
           (reconstructedIndex, powerOfTwo) \<Rightarrow>
             if reconstructedIndex \<noteq> index then (False, [])
             else
               (case fold (verifyMerkleProof_body H path pathIndices) [0 ..< TREE_DEPTH]
                       (leaf, []) of
                  (currentHash, calls) \<Rightarrow> (currentHash = root, calls))))"

definition verifyMerkleProof ::
  "hash_prim \<Rightarrow> int \<Rightarrow> int \<Rightarrow> int list \<Rightarrow> int list \<Rightarrow> int \<Rightarrow> bool" where
  "verifyMerkleProof H leaf index path pathIndices root =
     fst (verifyMerkleProof_run H leaf index path pathIndices root)"

definition verifyMerkleProof_hashCalls ::
  "hash_prim \<Rightarrow> int \<Rightarrow> int \<Rightarrow> int list \<Rightarrow> int list \<Rightarrow> int \<Rightarrow> (int \<times> int) list" where
  "verifyMerkleProof_hashCalls H leaf index path pathIndices root =
     snd (verifyMerkleProof_run H leaf index path pathIndices root)"

text \<open>
  A caller that inserts a list of leaves one after the other, as \<open>createIncrementalIMT\<close>
  does; the first failing insert ends the run with its error.
\<close>

fun insert_all ::
  "hash_prim \<Rightarrow> IncrementalMerkleTree \<Rightarrow> int list \<Rightarrow> imt_error + IncrementalMerkleTree" where
  "insert_all H t [] = Inr t"
| "insert_all H t (leaf # ls) =
     (case insert_leaf H t leaf of
        (Inl e, t') \<Rightarrow> Inl e
      | (Inr index, t') \<Rightarrow> insert_all H t' ls)"

text \<open>
  The tree states a caller can reach: a new tree, and the state after any call of
  \<open>insert\<close>, \<open>update\<close> or \<open>delete\<close> on a reachable tree, whether the call succeeded or
  threw.
\<close>

inductive reachable :: "hash_prim \<Rightarrow> IncrementalMerkleTree \<Rightarrow> bool" for H where
  reach_new: "reachable H new_tree"
| reach_insert: "reachable H t \<Longrightarrow> reachable H (snd (insert_leaf H t leaf))"
| reach_update: "reachable H t \<Longrightarrow> reachable H (snd (update H t index newLeaf))"
| reach_delete: "reachable H t \<Longrightarrow> reachable H (snd (delete H t index))"

section \<open>Batch manager\<close>

text \<open>
  The helper module \<open>benchmark_poly_helper.js\<close> carries a copy of \<open>mod\<close> and of
  \<open>addRoot\<close>, the same text as in the polynomial module, over \<open>FIELD_PRIME\<close>, the same
  number as \<open>bn_254_fp\<close>, and the same \<open>MAX_POLY_DEGREE = 128\<close>. The model uses
  \<open>addRoot\<close> and \<open>MAX_POLY_DEGREE\<close> for both.

  The user map is keyed by \<open>secret.toString()\<close>, the decimal numeral of a bigint.
\<close>

definition digit_char :: "nat \<Rightarrow> char" where
  "digit_char d = char_of (48 + d)"

function toString_nat :: "nat \<Rightarrow> string" where
  "toString_nat n =
     (if n < 10 then [digit_char n] else toString_nat (n div 10) @ [digit_char (n mod 10)])"
  by pat_completeness auto
termination
  by (relation "measure id") auto

declare toString_nat.simps [simp del]

definition toString :: "int \<Rightarrow> string" where
  "toString x = (if x < 0 then CHR ''-'' # toString_nat (nat (- x)) else toString_nat (nat x))"

text \<open>
  \<open>addSecretsToBatches\<close> on values; a second model, on a store of objects, follows
  below, and the two are proved to agree. The function works on its own copies
  \<open>currentBatches\<close> and \<open>currentRoots\<close> and on \<open>userMap\<close>; the state of its loops is the
  triple of the three. Reading \<open>currentBatches[i]\<close> beyond the end of the array gives
  \<open>undefined\<close>, on which \<open>addRoot\<close> throws a \<open>TypeError\<close>.
\<close>

datatype batch_error = TypeError

type_synonym batch_state = "int list list \<times> int list list \<times> (string \<rightharpoonup> nat)"

text \<open>
  The inner loop \<^verbatim>\<open>for (let i = 0; i < currentRoots.length; i++)\<close> with its \<open>break\<close>: the
  answer is the state after the insertion when a batch with room was found
  (\<open>inserted = true\<close>), \<open>None\<close> when the loop ran to its end.
\<close>

function fit_existing ::
  "nat \<Rightarrow> batch_state \<Rightarrow> int \<Rightarrow> batch_error + batch_state option" where
  "fit_existing i st secret =
     (case st of (currentBatches, currentRoots, userMap) \<Rightarrow>
        if i < length currentRoots then
          if length (currentRoots ! i) < MAX_POLY_DEGREE then
            if i < length currentBatches then
              Inr (Some (currentBatches[i := addRoot (currentBatches ! i) secret],
                         currentRoots[i := currentRoots ! i @ [secret]],
                         userMap(toString secret \<mapsto> i)))
            else Inl TypeError
          else fit_existing (i + 1) st secret
        else Inr None)"
  by pat_completeness auto
termination
  by (relation "measure (\<lambda>(i, st, secret). length (fst (snd st)) - i)") auto

declare fit_existing.simps [simp del]

text \<open>The body of the outer loop \<^verbatim>\<open>for (const secret of newSecrets)\<close>.\<close>

definition addSecret :: "batch_state \<Rightarrow> int \<Rightarrow> batch_error + batch_state" where
  "addSecret st secret =
     (case fit_existing 0 st secret of
        Inl e \<Rightarrow> Inl e
      | Inr (Some st') \<Rightarrow> Inr st'
      | Inr None \<Rightarrow>
          (case st of (currentBatches, currentRoots, userMap) \<Rightarrow>
             let newBatchRoots = [secret];
                 newBatchPoly = addRoot [1] secret;
                 currentRoots1 = currentRoots @ [newBatchRoots];
                 currentBatches1 = currentBatches @ [newBatchPoly]
             in Inr (currentBatches1, currentRoots1,
                     userMap(toString secret \<mapsto> length currentRoots1 - 1))))"

fun addSecrets_loop :: "batch_state \<Rightarrow> int list \<Rightarrow> batch_error + batch_state" where
  "addSecrets_loop st [] = Inr st"
| "addSecrets_loop st (secret # newSecrets) =
     (case addSecret st secret of
        Inl e \<Rightarrow> Inl e
      | Inr st' \<Rightarrow> addSecrets_loop st' newSecrets)"

definition addSecretsToBatches ::
  "int list list \<Rightarrow> int list list \<Rightarrow> (string \<rightharpoonup> nat) \<Rightarrow> int list
     \<Rightarrow> batch_error + batch_state" where
  "addSecretsToBatches batches batchRoots userMap newSecrets =
     addSecrets_loop (batches, batchRoots, userMap) newSecrets"

text \<open>
  A caller that feeds the result of each call into the next, as the benchmark driver
  does with \<open>POLY_BATCHES\<close>, \<open>POLY_ROOTS\<close> and \<open>POLY_USER_MAP\<close>, starting from empty
  arrays and an empty map. Each element of \<open>calls\<close> is the \<open>newSecrets\<close> of one call.
\<close>

definition empty_batches :: batch_state where
  "empty_batches = ([], [], Map.empty)"

fun addSecrets_calls :: "batch_state \<Rightarrow> int list list \<Rightarrow> batch_error + batch_state" where
  "addSecrets_calls st [] = Inr st"
| "addSecrets_calls st (newSecrets # calls) =
     (case st of (batches, batchRoots, userMap) \<Rightarrow>
        (case addSecretsToBatches batches batchRoots userMap newSecrets of
           Inl e \<Rightarrow> Inl e
         | Inr st' \<Rightarrow> addSecrets_calls st' calls))"

section \<open>The batch manager on a store\<close>

text \<open>
  Arrays and maps of JavaScript are objects held by reference. To state what
  \<open>addSecretsToBatches\<close> does to the objects it is given, this second model runs the
  function on an explicit store: a list of objects, addressed by position, where an
  allocation appends. The slot of an array holds a bigint or a reference. The model
  covers arguments of the documented types (arrays of arrays of bigints, a \<open>Map\<close>, an
  array of bigints); an object of another kind where one of these is read makes the
  call throw, modelled as \<open>TypeError\<close>. Every result carries the store as it is when
  the call returns or throws.
\<close>

type_synonym addr = nat

datatype js_value = VBigInt int | VRef addr

datatype js_object = ArrayObj "js_value list" | MapObj "string \<rightharpoonup> nat"

type_synonym store = "js_object list"

definition alloc :: "store \<Rightarrow> js_object \<Rightarrow> store \<times> addr" where
  "alloc h obj = (h @ [obj], length h)"

definition read_array :: "store \<Rightarrow> addr \<Rightarrow> js_value list option" where
  "read_array h a =
     (if a < length h then (case h ! a of ArrayObj vs \<Rightarrow> Some vs | MapObj m \<Rightarrow> None) else None)"

fun the_bigints :: "js_value list \<Rightarrow> int list option" where
  "the_bigints [] = Some []"
| "the_bigints (VBigInt x # vs) = (case the_bigints vs of Some xs \<Rightarrow> Some (x # xs) | None \<Rightarrow> None)"
| "the_bigints (VRef a # vs) = None"

definition read_bigints :: "store \<Rightarrow> addr \<Rightarrow> int list option" where
  "read_bigints h a = (case read_array h a of Some vs \<Rightarrow> the_bigints vs | None \<Rightarrow> None)"

text \<open>\<open>arr.push(v)\<close> and \<open>userMap.set(k, v)\<close>: writes in place.\<close>

definition push :: "store \<Rightarrow> addr \<Rightarrow> js_value \<Rightarrow> store option" where
  "push h a v = (case read_array h a of Some vs \<Rightarrow> Some (h[a := ArrayObj (vs @ [v])]) | None \<Rightarrow> None)"

definition map_set :: "store \<Rightarrow> addr \<Rightarrow> string \<Rightarrow> nat \<Rightarrow> store option" where
  "map_set h a k v =
     (if a < length h
      then (case h ! a of MapObj m \<Rightarrow> Some (h[a := MapObj (m(k \<mapsto> v))]) | ArrayObj vs \<Rightarrow> None)
      else None)"

text \<open>
  \<open>addRoot\<close> reads \<open>oldPoly\<close> and writes only to the array it allocates, which it
  returns: on the store it is one allocation of the coefficient list that \<open>addRoot\<close>
  computes.
\<close>

definition addRoot_st :: "store \<Rightarrow> addr \<Rightarrow> int \<Rightarrow> (store \<times> addr) option" where
  "addRoot_st h oldPoly newRoot =
     (case read_bigints h oldPoly of
        Some P \<Rightarrow> Some (alloc h (ArrayObj (map VBigInt (addRoot P newRoot))))
      | None \<Rightarrow> None)"

text \<open>
  \<^verbatim>\<open>batchRoots.map((r) => [...r])\<close>: one fresh copy for each root list, in order.
\<close>

fun copy_each :: "store \<Rightarrow> js_value list \<Rightarrow> store \<times> js_value list option" where
  "copy_each h [] = (h, Some [])"
| "copy_each h (VBigInt x # rs) = (h, None)"
| "copy_each h (VRef a # rs) =
     (case read_array h a of
        None \<Rightarrow> (h, None)
      | Some vs \<Rightarrow>
          (case alloc h (ArrayObj vs) of
             (h1, a1) \<Rightarrow>
               (case copy_each h1 rs of
                  (h2, None) \<Rightarrow> (h2, None)
                | (h2, Some cs) \<Rightarrow> (h2, Some (VRef a1 # cs)))))"

text \<open>
  The statements under \<^verbatim>\<open>if (currentRoots[i].length < MAX_POLY_DEGREE)\<close>, on the store:
  the push onto the root list at \<open>ri\<close>, the new polynomial stored at
  \<open>currentBatches[i]\<close>, the map entry. \<open>cb\<close>, \<open>cr\<close> and \<open>um\<close> are the addresses of
  \<open>currentBatches\<close>, \<open>currentRoots\<close> and \<open>userMap\<close>.
\<close>

definition insert_at ::
  "nat \<Rightarrow> addr \<Rightarrow> addr \<Rightarrow> addr \<Rightarrow> int \<Rightarrow> store \<Rightarrow> store \<times> (batch_error + bool)" where
  "insert_at i ri cb um secret h =
     (case push h ri (VBigInt secret) of
        None \<Rightarrow> (h, Inl TypeError)
      | Some h1 \<Rightarrow>
          (case read_array h1 cb of
             None \<Rightarrow> (h1, Inl TypeError)
           | Some polys \<Rightarrow>
               if i < length polys then
                 (case polys ! i of
                    VBigInt x \<Rightarrow> (h1, Inl TypeError)
                  | VRef oldPoly \<Rightarrow>
                      (case addRoot_st h1 oldPoly secret of
                         None \<Rightarrow> (h1, Inl TypeError)
                       | Some (h2, newPoly) \<Rightarrow>
                           (case read_array h2 cb of
                              None \<Rightarrow> (h2, Inl TypeError)
                            | Some polys2 \<Rightarrow>
                                (case map_set (h2[cb := ArrayObj (polys2[i := VRef newPoly])]) um
                                        (toString secret) i of
                                   None \<Rightarrow>
                                     (h2[cb := ArrayObj (polys2[i := VRef newPoly])], Inl TypeError)
                                 | Some h4 \<Rightarrow> (h4, Inr True)))))
               else (h1, Inl TypeError)))"

text \<open>
  The inner loop with its \<open>break\<close>, on the store. The answer \<open>Inr True\<close> is
  \<open>inserted = true\<close>.
\<close>

function fit_existing_st ::
  "nat \<Rightarrow> addr \<Rightarrow> addr \<Rightarrow> addr \<Rightarrow> int \<Rightarrow> store \<Rightarrow> store \<times> (batch_error + bool)" where
  "fit_existing_st i cb cr um secret h =
     (case read_array h cr of
        None \<Rightarrow> (h, Inl TypeError)
      | Some roots \<Rightarrow>
          if i < length roots then
            (case roots ! i of
               VBigInt x \<Rightarrow> (h, Inl TypeError)
             | VRef ri \<Rightarrow>
                 (case read_array h ri of
                    None \<Rightarrow> (h, Inl TypeError)
                  | Some rl \<Rightarrow>
                      if length rl < MAX_POLY_DEGREE then insert_at i ri cb um secret h
                      else fit_existing_st (i + 1) cb cr um secret h))
          else (h, Inr False))"
  by pat_completeness auto
termination
  by (relation "measure (\<lambda>(i, cb, cr, um, secret, h).
        (case read_array h cr of Some roots \<Rightarrow> length roots | None \<Rightarrow> 0) - i)") auto

declare fit_existing_st.simps [simp del]

text \<open>The statements under \<^verbatim>\<open>if (!inserted)\<close>, on the store.\<close>

definition open_batch ::
  "addr \<Rightarrow> addr \<Rightarrow> addr \<Rightarrow> int \<Rightarrow> store \<Rightarrow> store \<times> (batch_error + unit)" where
  "open_batch cb cr um secret h1 =
     (case alloc h1 (ArrayObj [VBigInt secret]) of
        (h2, newBatchRoots) \<Rightarrow>
          (case alloc h2 (ArrayObj [VBigInt 1]) of
             (h3, newBatchPoly0) \<Rightarrow>
               (case addRoot_st h3 newBatchPoly0 secret of
                  None \<Rightarrow> (h3, Inl TypeError)
                | Some (h4, newBatchPoly) \<Rightarrow>
                    (case push h4 cr (VRef newBatchRoots) of
                       None \<Rightarrow> (h4, Inl TypeError)
                     | Some h5 \<Rightarrow>
                         (case push h5 cb (VRef newBatchPoly) of
                            None \<Rightarrow> (h5, Inl TypeError)
                          | Some h6 \<Rightarrow>
                              (case read_array h6 cr of
                                 None \<Rightarrow> (h6, Inl TypeError)
                               | Some roots \<Rightarrow>
                                   (case map_set h6 um (toString secret) (length roots - 1) of
                                      None \<Rightarrow> (h6, Inl TypeError)
                                    | Some h7 \<Rightarrow> (h7, Inr ()))))))))"

text \<open>The body of the outer loop, on the store.\<close>

definition addSecret_st ::
  "addr \<Rightarrow> addr \<Rightarrow> addr \<Rightarrow> int \<Rightarrow> store \<Rightarrow> store \<times> (batch_error + unit)" where
  "addSecret_st cb cr um secret h =
     (case fit_existing_st 0 cb cr um secret h of
        (h1, Inl e) \<Rightarrow> (h1, Inl e)
      | (h1, Inr True) \<Rightarrow> (h1, Inr ())
      | (h1, Inr False) \<Rightarrow> open_batch cb cr um secret h1)"

fun addSecrets_loop_st ::
  "addr \<Rightarrow> addr \<Rightarrow> addr \<Rightarrow> int list \<Rightarrow> store \<Rightarrow> store \<times> (batch_error + unit)" where
  "addSecrets_loop_st cb cr um [] h = (h, Inr ())"
| "addSecrets_loop_st cb cr um (secret # newSecrets) h =
     (case addSecret_st cb cr um secret h of
        (h1, Inl e) \<Rightarrow> (h1, Inl e)
      | (h1, Inr u) \<Rightarrow> addSecrets_loop_st cb cr um newSecrets h1)"

text \<open>
  The whole function. The result object \<open>{batches, batchRoots, userMap}\<close> is the triple
  of the three references. The loop over \<open>newSecrets\<close> runs over the elements the array
  has when the loop starts: the function has no write to an array that existed before
  the call.
\<close>

definition addSecretsToBatches_st ::
  "addr \<Rightarrow> addr \<Rightarrow> addr \<Rightarrow> addr \<Rightarrow> store
     \<Rightarrow> store \<times> (batch_error + addr \<times> addr \<times> addr)" where
  "addSecretsToBatches_st batches batchRoots userMap newSecrets h =
     (case read_array h batches of
        None \<Rightarrow> (h, Inl TypeError)
      | Some polys \<Rightarrow>
          (case alloc h (ArrayObj polys) of
             (h1, currentBatches) \<Rightarrow>
               (case read_array h1 batchRoots of
                  None \<Rightarrow> (h1, Inl TypeError)
                | Some rootLists \<Rightarrow>
                    (case copy_each h1 rootLists of
                       (h2, None) \<Rightarrow> (h2, Inl TypeError)
                     | (h2, Some copies) \<Rightarrow>
                         (case alloc h2 (ArrayObj copies) of
                            (h3, currentRoots) \<Rightarrow>
                              (case read_bigints h3 newSecrets of
                                 None \<Rightarrow> (h3, Inl TypeError)
                               | Some secrets \<Rightarrow>
                                   (case addSecrets_loop_st currentBatches currentRoots userMap
                                           secrets h3 of
                                      (h4, Inl e) \<Rightarrow> (h4, Inl e)
                                    | (h4, Inr u) \<Rightarrow>
                                        (h4, Inr (currentBatches, currentRoots, userMap)))))))))"

section \<open>Root removal on a store\<close>

text \<open>
  \<open>removeRoot\<close> is given \<open>oldPoly\<close> by reference. To state what the call does to that
  array, this model runs the function on the store, statement by statement: the read
  of \<open>oldPoly.length\<close>, the guard, the allocation of \<open>newPoly\<close> by
  \<^verbatim>\<open>new Array(n).fill(0n)\<close>, and a loop that reads \<open>oldPoly[i]\<close> from the store as it
  is at that iteration and writes \<open>newPoly[i - 1]\<close> in place.

  \<open>read_index\<close> is the read \<open>arr[i]\<close> of a bigint slot and \<open>write_index\<close> the
  assignment \<open>arr[i] = v\<close> to a slot the array has. The model covers an \<open>oldPoly\<close> of
  the documented type, an array of bigints. Where the object read is not an array,
  or the slot read is not a bigint, the source fails in the arithmetic of the runtime;
  the model answers \<open>None\<close> there. The loop stays inside both arrays: \<open>i\<close> runs from
  \<open>n = oldPoly.length - 1\<close> down to \<open>0\<close> and \<open>newPoly\<close> has \<open>n\<close> slots.
\<close>

definition read_index :: "store \<Rightarrow> addr \<Rightarrow> nat \<Rightarrow> int option" where
  "read_index h a i =
     (case read_array h a of
        None \<Rightarrow> None
      | Some vs \<Rightarrow>
          if i < length vs then (case vs ! i of VBigInt x \<Rightarrow> Some x | VRef b \<Rightarrow> None) else None)"

definition write_index :: "store \<Rightarrow> addr \<Rightarrow> nat \<Rightarrow> js_value \<Rightarrow> store option" where
  "write_index h a i v =
     (case read_array h a of
        None \<Rightarrow> None
      | Some vs \<Rightarrow> if i < length vs then Some (h[a := ArrayObj (vs[i := v])]) else None)"

text \<open>
  The loop \<^verbatim>\<open>for (let i = n; i >= 0; i--)\<close>, on the store. The answer \<open>Some (h, None)\<close>
  is \<^verbatim>\<open>return null\<close>; \<open>Some (h, Some newPoly)\<close> is the fall through to
  \<^verbatim>\<open>return newPoly\<close>, the reference to the array allocated by the call.
\<close>

fun removeRoot_loop_st ::
  "addr \<Rightarrow> int \<Rightarrow> addr \<Rightarrow> nat \<Rightarrow> int \<Rightarrow> store \<Rightarrow> (store \<times> addr option) option" where
  "removeRoot_loop_st oldPoly rootToRemove newPoly 0 carry h =
     (case read_index h oldPoly 0 of
        None \<Rightarrow> None
      | Some c \<Rightarrow>
          (let coeff = modp (c + carry)
           in if coeff \<noteq> 0 then Some (h, None) else Some (h, Some newPoly)))"
| "removeRoot_loop_st oldPoly rootToRemove newPoly (Suc k) carry h =
     (case read_index h oldPoly (Suc k) of
        None \<Rightarrow> None
      | Some c \<Rightarrow>
          (let coeff = modp (c + carry)
           in (case write_index h newPoly k (VBigInt coeff) of
                 None \<Rightarrow> None
               | Some h1 \<Rightarrow>
                   removeRoot_loop_st oldPoly rootToRemove newPoly k
                     (modp (coeff * rootToRemove)) h1)))"

text \<open>
  The whole function. The result carries the store as it is when the call returns or
  throws; the throw of the guard comes before the allocation.
\<close>

definition removeRoot_st ::
  "store \<Rightarrow> addr \<Rightarrow> int \<Rightarrow> (store \<times> (poly_error + addr option)) option" where
  "removeRoot_st h oldPoly rootToRemove =
     (case read_array h oldPoly of
        None \<Rightarrow> None
      | Some vs \<Rightarrow>
          (let n = int (length vs) - 1
           in if n \<le> 0 then Some (h, Inl DegreeTooLow)
              else (case alloc h (ArrayObj (replicate (nat n) (VBigInt 0))) of
                      (h1, newPoly) \<Rightarrow>
                        (case removeRoot_loop_st oldPoly rootToRemove newPoly (nat n) 0 h1 of
                           None \<Rightarrow> None
                         | Some (h2, res) \<Rightarrow> Some (h2, Inr res)))))"

section \<open>Auxiliary functions for the polynomial proofs\<close>

text \<open>
  These functions are not in the source. They are the mathematical readings of the loops,
  used to state what the loops compute: \<open>pv\<close> is the value of a coefficient list
  (lowest degree first) at a point over the integers, \<open>mul_linear\<close> and \<open>shift_lin\<close>
  are the coefficients of \<open>P(x) * (x - r)\<close>, \<open>sdc\<close> is the chain of running
  coefficients of a synthetic division started with carry \<open>c\<close>, and
  \<open>field_element\<close> is the canonical range \<open>[0, p)\<close>.
\<close>

fun pv :: "int list \<Rightarrow> int \<Rightarrow> int" where
  "pv [] x = 0"
| "pv (a # as) x = a + x * pv as x"

definition mul_linear :: "int list \<Rightarrow> int \<Rightarrow> int list" where
  "mul_linear P r = map (\<lambda>(a, b). (a - b * r) mod bn_254_fp) (zip (0 # P) (P @ [0]))"

fun shift_lin :: "int \<Rightarrow> int list \<Rightarrow> int \<Rightarrow> int list" where
  "shift_lin a [] r = [a mod bn_254_fp]"
| "shift_lin a (b # bs) r = ((a - b * r) mod bn_254_fp) # shift_lin b bs r"

fun sdc :: "int list \<Rightarrow> int \<Rightarrow> int \<Rightarrow> int list" where
  "sdc [] r c = []"
| "sdc (a # as) r c =
     (let cs = sdc as r c;
          carry = (case cs of [] \<Rightarrow> c | x # _ \<Rightarrow> (x * r) mod bn_254_fp)
      in ((a + carry) mod bn_254_fp) # cs)"

definition field_element :: "int \<Rightarrow> bool" where
  "field_element x = (0 \<le> x \<and> x < bn_254_fp)"

section \<open>Auxiliary functions for the tree proofs\<close>

text \<open>
  None of these is in the source. \<open>parent_ok\<close> says that the value read at a node is
  the hash of the values read at its two children, where a value is read the way the
  source reads a sibling (with the fall-back to the zero hash of the level);
  \<open>consistent\<close> says so of every node, \<open>path_inv\<close> of every node but those that the
  loop of \<open>updatePath\<close> has still to recompute after \<open>k\<close> iterations, and \<open>tree_inv\<close>
  adds the bound on the leaf count and the presence of the root node. \<open>path_of\<close> and
  \<open>bits_of\<close> are the two lists that \<open>getMerklePath\<close> builds.
\<close>

definition parent_ok :: "hash_prim \<Rightarrow> (nat \<rightharpoonup> int) \<Rightarrow> (nat \<times> nat \<rightharpoonup> int) \<Rightarrow> nat \<Rightarrow> nat \<Rightarrow> bool" where
  "parent_ok H lvs nds l j =
     (siblingHash_at H lvs nds (l + 1) j =
      hashPair H (siblingHash_at H lvs nds l (2 * j)) (siblingHash_at H lvs nds l (2 * j + 1)))"

definition path_inv :: "hash_prim \<Rightarrow> (nat \<rightharpoonup> int) \<Rightarrow> (nat \<times> nat \<rightharpoonup> int) \<Rightarrow> nat \<Rightarrow> nat \<Rightarrow> bool" where
  "path_inv H lvs nds index k =
     ((\<forall>l j. l < k \<longrightarrow> parent_ok H lvs nds l j) \<and>
      (\<forall>l j. k \<le> l \<and> l < TREE_DEPTH \<and> j \<noteq> index div 2 ^ (l + 1) \<longrightarrow> parent_ok H lvs nds l j))"

definition consistent :: "hash_prim \<Rightarrow> IncrementalMerkleTree \<Rightarrow> bool" where
  "consistent H t = (\<forall>l j. l < TREE_DEPTH \<longrightarrow> parent_ok H (leaves t) (nodes t) l j)"

definition tree_inv :: "hash_prim \<Rightarrow> IncrementalMerkleTree \<Rightarrow> bool" where
  "tree_inv H t =
     (consistent H t \<and> nextIndex t \<le> MAX_LEAVES \<and>
      (0 < nextIndex t \<longrightarrow> nodes t (TREE_DEPTH, 0) \<noteq> None))"

definition sibling_index :: "nat \<Rightarrow> nat" where
  "sibling_index c = (if c mod 2 = 1 then c - 1 else c + 1)"

definition path_of :: "hash_prim \<Rightarrow> IncrementalMerkleTree \<Rightarrow> nat \<Rightarrow> nat \<Rightarrow> int list" where
  "path_of H t i k =
     map (\<lambda>l. siblingHash_at H (leaves t) (nodes t) l (sibling_index (i div 2 ^ l))) [0 ..< k]"

definition bits_of :: "nat \<Rightarrow> nat \<Rightarrow> int list" where
  "bits_of i k = map (\<lambda>l. if (i div 2 ^ l) mod 2 = 1 then 1 else 0) [0 ..< k]"

text \<open>
  A stand-in for the external Poseidon2 permutation, to instantiate the parameter \<open>H\<close>
  in the closed example theorems. No proof looks inside it.
\<close>

definition toy_hash :: hash_prim where
  "toy_hash inputs = foldl (\<lambda>acc x. 31 * acc + x + 1) 7 inputs"

section \<open>Auxiliary predicates for the batch proofs\<close>

text \<open>
  None of these is in the source. \<open>cap_inv\<close> is the capacity invariant of the root
  lists (every list but the last is full, none is over-full); \<open>map_sound\<close> says that
  every entry of the user map points to a batch whose root list holds a root with that
  key, \<open>map_complete\<close> that every listed root is mapped to the batch that lists it;
  \<open>placed\<close> describes the two ways the loop body places one secret (first batch with
  room, or a new batch when all are full).
\<close>

definition cap_inv :: "int list list \<Rightarrow> bool" where
  "cap_inv rs =
     ((\<forall>i. i + 1 < length rs \<longrightarrow> length (rs ! i) = MAX_POLY_DEGREE) \<and>
      (\<forall>i. i < length rs \<longrightarrow> length (rs ! i) \<le> MAX_POLY_DEGREE))"

definition map_sound :: "int list list \<Rightarrow> (string \<rightharpoonup> nat) \<Rightarrow> bool" where
  "map_sound rs um =
     (\<forall>k b. um k = Some b \<longrightarrow> b < length rs \<and> (\<exists>r. r \<in> set (rs ! b) \<and> toString r = k))"

definition map_complete :: "int list list \<Rightarrow> (string \<rightharpoonup> nat) \<Rightarrow> bool" where
  "map_complete rs um =
     (\<forall>b r. b < length rs \<and> r \<in> set (rs ! b) \<longrightarrow> um (toString r) = Some b)"

definition placed :: "batch_state \<Rightarrow> int \<Rightarrow> nat \<Rightarrow> batch_state \<Rightarrow> bool" where
  "placed st s i st' =
     (case st of (bs, rs, um) \<Rightarrow>
        (i < length rs \<and> length (rs ! i) < MAX_POLY_DEGREE \<and>
         (\<forall>j. j < i \<longrightarrow> MAX_POLY_DEGREE \<le> length (rs ! j)) \<and>
         st' = (bs[i := addRoot (bs ! i) s], rs[i := rs ! i @ [s]], um(toString s \<mapsto> i)))
        \<or>
        (i = length rs \<and> (\<forall>j. j < length rs \<longrightarrow> MAX_POLY_DEGREE \<le> length (rs ! j)) \<and>
         st' = (bs @ [addRoot [1] s], rs @ [[s]], um(toString s \<mapsto> i))))"

definition batch_inv :: "batch_state \<Rightarrow> bool" where
  "batch_inv st = (case st of (bs, rs, um) \<Rightarrow> length bs = length rs \<and> cap_inv rs \<and> map_sound rs um)"

definition all_roots :: "batch_state \<Rightarrow> int set" where
  "all_roots st = (case st of (bs, rs, um) \<Rightarrow> set (concat rs))"

definition state_complete :: "batch_state \<Rightarrow> bool" where
  "state_complete st = (case st of (bs, rs, um) \<Rightarrow> map_complete rs um)"

section \<open>Auxiliary predicates for the store proofs\<close>

text \<open>
  None of these is in the source. With \<open>n\<close> the size of the store when the call starts
  and \<open>um\<close> the address of the user map: \<open>pres\<close> says that a later store still holds
  every object that was below \<open>n\<close>, other than the one at \<open>um\<close>, as it was; \<open>fresh\<close>
  says that \<open>currentBatches\<close> and \<open>currentRoots\<close> are arrays allocated by the call and
  that \<open>currentRoots\<close> holds references to arrays allocated by the call only;
  \<open>map_kept\<close> and \<open>map_put\<close> say what one iteration for the secret \<open>s\<close> may have done,
  and has done when it succeeded, to the map at \<open>um\<close>; \<open>eff\<close> collects them.
\<close>

definition pres :: "nat \<Rightarrow> addr \<Rightarrow> store \<Rightarrow> store \<Rightarrow> bool" where
  "pres n um h h' = (length h \<le> length h' \<and> (\<forall>a. a < n \<and> a \<noteq> um \<longrightarrow> h' ! a = h ! a))"

definition fresh :: "nat \<Rightarrow> store \<Rightarrow> addr \<Rightarrow> addr \<Rightarrow> bool" where
  "fresh n h cb cr =
     (n \<le> cb \<and> n \<le> cr \<and> cb \<noteq> cr \<and> cb < length h \<and> cr < length h \<and>
      (\<exists>ps. h ! cb = ArrayObj ps) \<and>
      (\<exists>refs. h ! cr = ArrayObj refs \<and>
         (\<forall>v. v \<in> set refs \<longrightarrow> (\<exists>a. v = VRef a \<and> n \<le> a \<and> a \<noteq> cb \<and> a \<noteq> cr))))"

definition map_kept :: "addr \<Rightarrow> int \<Rightarrow> store \<Rightarrow> store \<Rightarrow> bool" where
  "map_kept um s h h' =
     (\<forall>m. h ! um = MapObj m \<longrightarrow>
        h' ! um = MapObj m \<or> (\<exists>i. h' ! um = MapObj (m(toString s \<mapsto> i))))"

definition map_put :: "addr \<Rightarrow> int \<Rightarrow> store \<Rightarrow> store \<Rightarrow> bool" where
  "map_put um s h h' = (\<forall>m. h ! um = MapObj m \<longrightarrow> (\<exists>i. h' ! um = MapObj (m(toString s \<mapsto> i))))"

definition eff :: "nat \<Rightarrow> addr \<Rightarrow> addr \<Rightarrow> addr \<Rightarrow> int \<Rightarrow> store \<Rightarrow> store \<Rightarrow> bool" where
  "eff n um cb cr s h h' =
     (pres n um h h' \<and> fresh n h' cb cr \<and> map_kept um s h h' \<and> n \<le> length h \<and> um < n)"

text \<open>
  A store for the example run: one batch holding the root 5, its polynomial, the map
  entry for it and a \<open>newSecrets\<close> array holding the one secret 7. The arguments are
  the addresses 0 (\<open>batches\<close>), 1 (\<open>batchRoots\<close>), 2 (\<open>userMap\<close>) and 3
  (\<open>newSecrets\<close>).
\<close>

definition example_store :: store where
  "example_store =
     [ArrayObj [VRef 4], ArrayObj [VRef 5], MapObj [toString 5 \<mapsto> 0], ArrayObj [VBigInt 7],
      ArrayObj (map VBigInt (addRoot [1] 5)), ArrayObj [VBigInt 5]]"


text \<open>
  A store for two example runs of \<open>removeRoot\<close>: at address 0 the polynomial
  \<open>x + 2\<close>, of which 5 is not a root, and at address 1 the polynomial
  \<open>x\<^sup>2 - 5 x + 6 = (x - 2) (x - 3)\<close>.
\<close>

definition removal_store :: store where
  "removal_store =
     [ArrayObj [VBigInt 2, VBigInt 1], ArrayObj [VBigInt 6, VBigInt (- 5), VBigInt 1]]"
section \<open>Auxiliary predicates relating the store to the values\<close>

text \<open>
  None of these is in the source. \<open>holds_lists h a xss\<close> says that the object at \<open>a\<close> is
  an array of references to arrays of bigints whose contents are the lists \<open>xss\<close>.
  \<open>st_rel\<close> relates the store during the loops of \<open>addSecretsToBatches\<close> to the state
  \<open>(currentBatches, currentRoots, userMap)\<close> of the model on values; it also records
  that the root lists are distinct arrays allocated by the call, none of them a
  polynomial.
\<close>

definition st_rel :: "nat \<Rightarrow> addr \<Rightarrow> addr \<Rightarrow> addr \<Rightarrow> store \<Rightarrow> batch_state \<Rightarrow> bool" where
  "st_rel n um cb cr h st =
     (case st of (bs, rs, m) \<Rightarrow>
        um < n \<and> n \<le> cb \<and> n \<le> cr \<and> cb \<noteq> cr \<and> cb < length h \<and> cr < length h \<and>
        n \<le> length h \<and> h ! um = MapObj m \<and> length bs = length rs \<and>
        (\<exists>prefs rrefs.
           h ! cb = ArrayObj (map VRef prefs) \<and> h ! cr = ArrayObj (map VRef rrefs) \<and>
           length prefs = length bs \<and> length rrefs = length rs \<and> distinct rrefs \<and>
           (\<forall>a. a \<in> set rrefs \<longrightarrow> n \<le> a \<and> a < length h \<and> a \<noteq> cb \<and> a \<noteq> cr \<and> a \<notin> set prefs) \<and>
           (\<forall>a. a \<in> set prefs \<longrightarrow> a < length h \<and> a \<noteq> cb \<and> a \<noteq> cr) \<and>
           (\<forall>i. i < length bs \<longrightarrow> read_bigints h (prefs ! i) = Some (bs ! i)) \<and>
           (\<forall>i. i < length rs \<longrightarrow> read_bigints h (rrefs ! i) = Some (rs ! i))))"

definition holds_lists :: "store \<Rightarrow> addr \<Rightarrow> int list list \<Rightarrow> bool" where
  "holds_lists h a xss =
     (\<exists>refs. read_array h a = Some (map VRef refs) \<and> length refs = length xss \<and>
        (\<forall>i. i < length xss \<longrightarrow> read_bigints h (refs ! i) = Some (xss ! i)))"

section \<open>Facts about the field reduction\<close>

lemma bn_254_fp_pos: "0 < bn_254_fp"
  by (simp add: bn_254_fp_def)

lemma modp_eq_mod: "modp x = x mod bn_254_fp"
proof (cases "0 \<le> x")
  case True
  then show ?thesis
    using bn_254_fp_pos by (simp add: mod_f_def smod_int_alt_def sgn_if)
next
  case False
  then have neg: "x < 0" by simp
  have eq: "x smod bn_254_fp = - ((- x) mod bn_254_fp)"
    using neg bn_254_fp_pos by (simp add: smod_int_alt_def sgn_if)
  show ?thesis
  proof (cases "(- x) mod bn_254_fp = 0")
    case True
    then have "x mod bn_254_fp = 0"
      by (metis mod_minus_cong minus_minus minus_zero mod_0)
    with True eq show ?thesis by (simp add: mod_f_def)
  next
    case False
    have pos: "0 < (- x) mod bn_254_fp"
      using False bn_254_fp_pos
      by (metis less_le pos_mod_sign)
    have "x mod bn_254_fp = bn_254_fp - (- x) mod bn_254_fp"
      using False bn_254_fp_pos by (metis minus_minus zmod_zminus1_eq_if)
    with pos eq show ?thesis by (simp add: mod_f_def Let_def)
  qed
qed

section \<open>The polynomial loops in closed form\<close>

lemma addRoot_partial:
  "k \<le> length P \<Longrightarrow>
   fold (addRoot_body P r) [0 ..< k] (replicate (length P + 1) 0) =
   map (\<lambda>i. if i < k then ((if i = 0 then 0 else P ! (i - 1)) - P ! i * r) mod bn_254_fp
             else if i = k then (if i = 0 then 0 else P ! (i - 1) mod bn_254_fp)
             else 0) [0 ..< length P + 1]"
proof (induction k)
  case 0
  show ?case by (rule nth_equalityI) (simp_all del: upt_Suc replicate_Suc)
next
  case (Suc k)
  then have IH: "fold (addRoot_body P r) [0 ..< k] (replicate (length P + 1) 0) =
   map (\<lambda>i. if i < k then ((if i = 0 then 0 else P ! (i - 1)) - P ! i * r) mod bn_254_fp
             else if i = k then (if i = 0 then 0 else P ! (i - 1) mod bn_254_fp)
             else 0) [0 ..< length P + 1]" and k: "k < length P" by simp_all
  show ?case
    apply (simp only: upt_Suc_append[OF le0] fold_append o_apply fold.simps id_apply IH)
    apply (rule nth_equalityI)
     apply (simp add: addRoot_body_def Let_def)
    using k
    apply (auto simp: addRoot_body_def Let_def modp_eq_mod nth_list_update mod_simps simp del: upt_Suc replicate_Suc)
    done
qed

lemma addRoot_closed: "addRoot P r = mul_linear P r"
  unfolding addRoot_def mul_linear_def
  apply (simp only: addRoot_partial[OF le_refl])
  apply (rule nth_equalityI)
   apply simp
  apply (auto simp: nth_append nth_Cons split: nat.splits simp del: upt_Suc)
  done

lemma mul_linear_length: "length (mul_linear P r) = length P + 1"
  by (simp add: mul_linear_def)

lemma mul_linear_shift: "map (\<lambda>(a, b). (a - b * r) mod bn_254_fp) (zip (a0 # P) (P @ [0])) = shift_lin a0 P r"
  by (induction P arbitrary: a0) simp_all

lemma pv_shift_lin: "pv (shift_lin a P r) x mod bn_254_fp = (a + (x - r) * pv P x) mod bn_254_fp"
proof (induction P arbitrary: a)
  case Nil
  show ?case by simp
next
  case (Cons b bs)
  have "pv (shift_lin a (b # bs) r) x mod bn_254_fp = ((a - b * r) mod bn_254_fp + x * pv (shift_lin b bs r) x) mod bn_254_fp"
    by simp
  also have "\<dots> = ((a - b * r) + x * (pv (shift_lin b bs r) x mod bn_254_fp)) mod bn_254_fp"
    by (metis mod_add_left_eq mod_add_right_eq mod_mult_right_eq)
  also have "\<dots> = ((a - b * r) + x * ((b + (x - r) * pv bs x) mod bn_254_fp)) mod bn_254_fp"
    by (simp only: Cons.IH)
  also have "\<dots> = ((a - b * r) + x * (b + (x - r) * pv bs x)) mod bn_254_fp"
    by (metis mod_add_right_eq mod_mult_right_eq)
  also have "\<dots> = (a + (x - r) * pv (b # bs) x) mod bn_254_fp"
    by (simp add: algebra_simps)
  finally show ?case .
qed

lemma pv_addRoot: "pv (addRoot P r) x mod bn_254_fp = ((x - r) * pv P x) mod bn_254_fp"
  using pv_shift_lin[of 0 P r x] by (simp add: addRoot_closed mul_linear_def mul_linear_shift)

lemma sdc_length [simp]: "length (sdc xs r c) = length xs"
  by (induction xs) (simp_all add: Let_def)

lemma sdc_snoc: "sdc (xs @ [a]) r c = sdc xs r (((a + c) mod bn_254_fp * r) mod bn_254_fp) @ [(a + c) mod bn_254_fp]"
  by (induction xs) (auto simp add: Let_def split: list.splits)

lemma removeRoot_loop_sdc:
  "k < length P \<Longrightarrow> k \<le> length newPoly \<Longrightarrow>
   removeRoot_loop P r k newPoly carry =
     (let cs = sdc (take (Suc k) P) r carry
      in if hd cs \<noteq> 0 then None else Some (tl cs @ drop k newPoly))"
proof (induction k arbitrary: newPoly carry)
  case 0
  then obtain a as where P: "P = a # as" by (cases P) auto
  show ?case by (simp add: P modp_eq_mod Let_def)
next
  case (Suc k)
  have tk: "take (Suc (Suc k)) P = take (Suc k) P @ [P ! Suc k]"
    using Suc.prems(1) by (simp add: take_Suc_conv_app_nth)
  let ?coeff = "(P ! Suc k + carry) mod bn_254_fp"
  let ?cs' = "sdc (take (Suc k) P) r ((?coeff * r) mod bn_254_fp)"
  have ne: "?cs' \<noteq> []"
    using Suc.prems(1) by (metis sdc_length length_0_conv length_take min.absorb2 nat.distinct(1) less_imp_le_nat Suc_leI Suc_lessD)
  have dr: "drop k (newPoly[k := ?coeff]) = ?coeff # drop (Suc k) newPoly"
    using Suc.prems(2) by (simp add: drop_update_cancel Cons_nth_drop_Suc[symmetric] upd_conv_take_nth_drop)
  have "removeRoot_loop P r (Suc k) newPoly carry =
        removeRoot_loop P r k (newPoly[k := ?coeff]) ((?coeff * r) mod bn_254_fp)"
    by (simp add: modp_eq_mod Let_def)
  also have "\<dots> = (if hd ?cs' \<noteq> 0 then None else Some (tl ?cs' @ drop k (newPoly[k := ?coeff])))"
    using Suc.prems by (subst Suc.IH) (simp_all add: Let_def)
  also have "\<dots> = (let cs = sdc (take (Suc (Suc k)) P) r carry
      in if hd cs \<noteq> 0 then None else Some (tl cs @ drop (Suc k) newPoly))"
    using ne by (simp only: tk sdc_snoc Let_def dr) (simp)
  finally show ?case .
qed

lemma removeRoot_closed:
  "2 \<le> length P \<Longrightarrow>
   removeRoot P r = Inr (if hd (sdc P r 0) \<noteq> 0 then None else Some (tl (sdc P r 0)))"
  unfolding removeRoot_def
  by (simp add: Let_def removeRoot_loop_sdc)

lemma removeRoot_short: "length P < 2 \<Longrightarrow> removeRoot P r = Inl DegreeTooLow"
  unfolding removeRoot_def by (simp add: Let_def)

lemma sdc_shift_lin: "sdc (shift_lin a P r) r 0 = (a mod bn_254_fp) # map (\<lambda>c. c mod bn_254_fp) P"
proof (induction P arbitrary: a)
  case Nil
  show ?case by simp
next
  case (Cons b bs)
  have "((a - b * r) mod bn_254_fp + (b mod bn_254_fp * r) mod bn_254_fp) mod bn_254_fp = a mod bn_254_fp"
    by (simp add: mod_simps)
  then show ?case by (simp add: Cons.IH)
qed

lemma sdc_hd_pv: "P \<noteq> [] \<Longrightarrow> hd (sdc P r 0) = pv P r mod bn_254_fp"
proof (induction P)
  case Nil
  then show ?case by simp
next
  case (Cons a as)
  show ?case
  proof (cases as)
    case Nil
    then show ?thesis by simp
  next
    case (Cons b bs)
    then have ne: "as \<noteq> []" by simp
    then obtain c cs where cs: "sdc as r 0 = c # cs"
      by (metis sdc_length length_0_conv neq_Nil_conv)
    with Cons.IH[OF ne] have c: "c = pv as r mod bn_254_fp" by simp
    have "hd (sdc (a # as) r 0) = (a + (c * r) mod bn_254_fp) mod bn_254_fp"
      by (simp add: cs)
    also have "\<dots> = (a + r * pv as r) mod bn_254_fp"
      unfolding c by (simp add: mod_simps mult.commute)
    finally show ?thesis by simp
  qed
qed

lemma evaluate_fold_range:
  "0 \<le> res \<Longrightarrow> res < bn_254_fp \<Longrightarrow>
   0 \<le> fst (fold (\<lambda>coeff (result, rootPower).
                  (modp (result + modp (coeff * rootPower)), modp (rootPower * x)))
            P (res, pw)) \<and>
   fst (fold (\<lambda>coeff (result, rootPower).
                  (modp (result + modp (coeff * rootPower)), modp (rootPower * x)))
            P (res, pw)) < bn_254_fp"
  using bn_254_fp_pos
  by (induction P arbitrary: res pw) (simp_all add: modp_eq_mod)

lemma evaluate_fold_pv:
  "fst (fold (\<lambda>coeff (result, rootPower).
                  (modp (result + modp (coeff * rootPower)), modp (rootPower * x)))
            P (res, pw)) mod bn_254_fp = (res + pw * pv P x) mod bn_254_fp"
proof (induction P arbitrary: res pw)
  case Nil
  show ?case by simp
next
  case (Cons a as)
  let ?F = "\<lambda>coeff (result, rootPower).
                  (modp (result + modp (coeff * rootPower)), modp (rootPower * x))"
  have "fst (fold ?F (a # as) (res, pw)) mod bn_254_fp =
        fst (fold ?F as (modp (res + modp (a * pw)), modp (pw * x))) mod bn_254_fp"
    by simp
  also have "\<dots> = (modp (res + modp (a * pw)) + modp (pw * x) * pv as x) mod bn_254_fp"
    by (rule Cons.IH)
  also have "\<dots> = ((res + a * pw) mod bn_254_fp + (pw * x) mod bn_254_fp * pv as x) mod bn_254_fp"
    by (simp add: modp_eq_mod mod_simps)
  also have "\<dots> = ((res + a * pw) + (pw * x) * pv as x) mod bn_254_fp"
    by (metis mod_add_cong mod_mod_trivial mod_mult_left_eq)
  also have "\<dots> = (res + pw * pv (a # as) x) mod bn_254_fp"
    by (simp add: algebra_simps)
  finally show ?case .
qed

lemma evaluate_pv: "evaluate P x = pv P x mod bn_254_fp"
proof -
  let ?e = "evaluate P x"
  have "0 \<le> ?e \<and> ?e < bn_254_fp"
    unfolding evaluate_def using evaluate_fold_range[of 0 x P 1] bn_254_fp_pos by simp
  then have "?e = ?e mod bn_254_fp" by simp
  also have "\<dots> = pv P x mod bn_254_fp"
    unfolding evaluate_def using evaluate_fold_pv[of x P 0 1] by simp
  finally show ?thesis .
qed

lemma interpolate_step_addRoot: "interpolate_step P r = addRoot P r"
  by (simp add: interpolate_step_def addRoot_def addRoot_body_def[abs_def] Let_def)

lemma pv_foldl_addRoot:
  "pv (foldl addRoot P rs) x mod bn_254_fp = (pv P x * prod_list (map (\<lambda>r. x - r) rs)) mod bn_254_fp"
proof (induction rs arbitrary: P)
  case Nil
  show ?case by simp
next
  case (Cons r rs)
  have "pv (foldl addRoot P (r # rs)) x mod bn_254_fp =
        (pv (addRoot P r) x mod bn_254_fp * prod_list (map (\<lambda>r. x - r) rs)) mod bn_254_fp"
    by (simp add: Cons.IH mod_simps)
  also have "\<dots> = (((x - r) * pv P x) * prod_list (map (\<lambda>r. x - r) rs)) mod bn_254_fp"
    by (simp only: pv_addRoot) (simp add: mod_simps)
  finally show ?case by (simp add: algebra_simps)
qed

lemma prod_list_zero_factor: "(0::int) \<in> set xs \<Longrightarrow> prod_list xs = 0"
  by (induction xs) auto

lemma foldl_addRoot_root:
  "(evaluate P r = 0 \<or> r \<in> set rs) \<Longrightarrow> evaluate (foldl addRoot P rs) r = 0"
proof -
  assume h: "evaluate P r = 0 \<or> r \<in> set rs"
  have "pv P r mod bn_254_fp = 0 \<or> prod_list (map (\<lambda>s. r - s) rs) = 0"
    using h prod_list_zero_factor[of "map (\<lambda>s. r - s) rs"] by (auto simp: evaluate_pv)
  then have "(pv P r * prod_list (map (\<lambda>s. r - s) rs)) mod bn_254_fp = 0"
    by (metis mod_mult_left_eq mult_zero_left mult_zero_right mod_0)
  then show ?thesis by (simp add: evaluate_pv pv_foldl_addRoot)
qed

lemma removeRoot_null_iff:
  "2 \<le> length P \<Longrightarrow>
   (removeRoot P r = Inr None) = (evaluate P r \<noteq> 0) \<and>
   (removeRoot P r = Inr None) = (\<not> verifyPolynomial P r) \<and>
   removeRoot P r \<noteq> Inl DegreeTooLow"
proof -
  assume len: "2 \<le> length P"
  then have ne: "P \<noteq> []" by auto
  show ?thesis
    using len
    by (auto simp add: removeRoot_closed[OF len] sdc_hd_pv[OF ne] evaluate_pv
          verifyPolynomial_def)
qed

section \<open>Polynomial commitment: the claims\<close>

text \<open>
  Claim C8. For every list of roots \<open>rs\<close>, \<open>interpolatePolynomial rs\<close> returns the
  same coefficient list as starting from the polynomial \<open>[1]\<close> and applying
  \<open>addRoot\<close> once for each element of \<open>rs\<close>, in order.
\<close>

theorem interpolatePolynomial_is_repeated_addRoot:
  "interpolatePolynomial rs = foldl addRoot initial_polynomial rs"
proof -
  have "interpolate_step = addRoot"
    by (intro ext) (rule interpolate_step_addRoot)
  then show ?thesis
    by (simp add: interpolatePolynomial_def initial_polynomial_def)
qed

text \<open>
  Claim C4. For every list of roots \<open>rs\<close> and every \<open>r\<close> in it, the polynomial built by
  \<open>interpolatePolynomial rs\<close>, and likewise the one accumulated from \<open>[1]\<close> by
  repeated \<open>addRoot\<close>, evaluates to zero at \<open>r\<close>: \<open>verifyPolynomial\<close> answers true.
  The roots need not be canonical field elements.
\<close>

theorem interpolatePolynomial_roots_vanish:
  "r \<in> set rs \<Longrightarrow>
   verifyPolynomial (interpolatePolynomial rs) r \<and>
   verifyPolynomial (foldl addRoot initial_polynomial rs) r"
proof -
  assume r: "r \<in> set rs"
  have "interpolate_step = addRoot"
    by (intro ext) (rule interpolate_step_addRoot)
  then have "interpolatePolynomial rs = foldl addRoot initial_polynomial rs"
    by (simp add: interpolatePolynomial_def initial_polynomial_def)
  with foldl_addRoot_root[of initial_polynomial r rs] r show ?thesis
    by (simp add: verifyPolynomial_def)
qed

theorem interpolatePolynomial_roots_vanish_witness:
  "(2::int) \<in> set [1, 2, 3] \<and>
   verifyPolynomial (interpolatePolynomial [1, 2, 3]) 2 \<and>
   verifyPolynomial (foldl addRoot initial_polynomial [1, 2, 3]) 2"
  using interpolatePolynomial_roots_vanish [of 2 "[1, 2, 3]"] by simp

text \<open>
  Claim C2, as the spec states it, for every coefficient list: it fails at the empty
  list. \<open>addRoot [] r\<close> is the one-coefficient list \<open>[0]\<close>, on which \<open>removeRoot\<close>
  throws its degree-too-low error.
\<close>

theorem removeRoot_addRoot_empty_counterexample:
  "list_all field_element [] \<and> field_element 5 \<and>
   addRoot [] 5 = [0] \<and>
   removeRoot (addRoot [] 5) 5 = Inl DegreeTooLow \<and>
   removeRoot (addRoot [] 5) 5 \<noteq> Inr (Some [])"
  by (simp add: addRoot_def removeRoot_def field_element_def bn_254_fp_def)

text \<open>
  Claim C2, amended. For every non-empty coefficient list \<open>P\<close> of canonical field
  elements and every \<open>r\<close>, \<open>removeRoot (addRoot P r) r\<close> succeeds and returns \<open>P\<close>
  itself.
\<close>

theorem removeRoot_addRoot_roundtrip:
  "P \<noteq> [] \<Longrightarrow> list_all field_element P \<Longrightarrow>
   removeRoot (addRoot P r) r = Inr (Some P)"
proof -
  assume ne: "P \<noteq> []" and fe: "list_all field_element P"
  have len: "2 \<le> length (addRoot P r)"
    using ne by (cases P) (simp_all add: addRoot_closed mul_linear_def)
  have "map (\<lambda>c. c mod bn_254_fp) P = P"
    using fe by (induction P) (simp_all add: field_element_def)
  then show ?thesis
    by (simp add: removeRoot_closed[OF len])
       (simp add: addRoot_closed mul_linear_def mul_linear_shift sdc_shift_lin)
qed

theorem removeRoot_addRoot_roundtrip_witness:
  "[3, 1] \<noteq> [] \<and> list_all field_element [3, 1] \<and>
   removeRoot (addRoot [3, 1] 10) 10 = Inr (Some [3, 1])"
proof -
  have fe: "list_all field_element [3, 1]"
    by (simp add: field_element_def bn_254_fp_def)
  show ?thesis
    using fe removeRoot_addRoot_roundtrip [of "[3, 1]" 10] by simp
qed

section \<open>Polynomial commitment: the worked examples\<close>

text \<open>
  The roots 1, 2, 3 give the coefficients of \<open>x^3 - 6 x^2 + 11 x - 6\<close> reduced into the
  field; the polynomial vanishes at 1, 2 and 3 and not at 4; adding the root 4 and
  removing the root 2 leaves \<open>(x - 1)(x - 3)(x - 4)\<close>.
\<close>

lemma interpolate_example:
  "interpolatePolynomial [1, 2, 3] = [bn_254_fp - 6, 11, bn_254_fp - 6, 1]"
  by (simp add: interpolatePolynomial_def interpolate_step_addRoot addRoot_closed mul_linear_def
        bn_254_fp_def)

lemma interpolate_example_roots:
  "verifyPolynomial [bn_254_fp - 6, 11, bn_254_fp - 6, 1] 1 \<and>
   verifyPolynomial [bn_254_fp - 6, 11, bn_254_fp - 6, 1] 2 \<and>
   verifyPolynomial [bn_254_fp - 6, 11, bn_254_fp - 6, 1] 3 \<and>
   \<not> verifyPolynomial [bn_254_fp - 6, 11, bn_254_fp - 6, 1] 4"
  by (simp add: verifyPolynomial_def evaluate_pv bn_254_fp_def)

lemma add_then_remove_example:
  "removeRoot (addRoot [bn_254_fp - 6, 11, bn_254_fp - 6, 1] 4) 2 =
     Inr (Some [bn_254_fp - 12, 19, bn_254_fp - 8, 1])"
  by (simp add: removeRoot_closed addRoot_closed mul_linear_def Let_def bn_254_fp_def)

section \<open>The tree: zero hashes, path recomputation and the invariant\<close>

lemma zero_fold:
  "k \<le> TREE_DEPTH \<Longrightarrow>
   (let zs = fold (\<lambda>i zeroHashes.
             zeroHashes[i := hashPair H (zeroHashes ! (i - 1)) (zeroHashes ! (i - 1))])
       [1 ..< k + 1]
       ((replicate (TREE_DEPTH + 1) 0)[0 := getZeroValue H])
    in length zs = TREE_DEPTH + 1 \<and> zs ! 0 = getZeroValue H \<and>
       (\<forall>i < k. zs ! (i + 1) = hashPair H (zs ! i) (zs ! i)))"
proof (induction k)
  case 0
  show ?case by (simp del: replicate_Suc)
next
  case (Suc k)
  define F where "F = (\<lambda>i zeroHashes.
             zeroHashes[i := hashPair H (zeroHashes ! (i - 1)) (zeroHashes ! (i - 1 :: nat))])"
  define zs where "zs = fold F [1 ..< k + 1] ((replicate (TREE_DEPTH + 1) 0)[0 := getZeroValue H])"
  from Suc have k: "k < TREE_DEPTH"
    and len: "length zs = TREE_DEPTH + 1"
    and z0: "zs ! 0 = getZeroValue H"
    and zi: "\<forall>i < k. zs ! (i + 1) = hashPair H (zs ! i) (zs ! i)"
    by (simp_all add: Let_def zs_def F_def del: replicate_Suc upt_Suc)
  have up: "[1 ..< Suc k + 1] = [1 ..< k + 1] @ [k + 1]" by simp
  have step: "fold F [1 ..< Suc k + 1] ((replicate (TREE_DEPTH + 1) 0)[0 := getZeroValue H])
              = zs[k + 1 := hashPair H (zs ! k) (zs ! k)]"
    unfolding up fold_append o_apply zs_def[symmetric] by (simp add: F_def)
  have "\<forall>i < Suc k. (zs[k + 1 := hashPair H (zs ! k) (zs ! k)]) ! (i + 1) =
          hashPair H ((zs[k + 1 := hashPair H (zs ! k) (zs ! k)]) ! i)
                     ((zs[k + 1 := hashPair H (zs ! k) (zs ! k)]) ! i)"
  proof (intro allI impI)
    fix i assume i: "i < Suc k"
    have inr: "k + 1 < length zs" using k len by simp
    show "(zs[k + 1 := hashPair H (zs ! k) (zs ! k)]) ! (i + 1) =
          hashPair H ((zs[k + 1 := hashPair H (zs ! k) (zs ! k)]) ! i)
                     ((zs[k + 1 := hashPair H (zs ! k) (zs ! k)]) ! i)"
    proof (cases "i = k")
      case True
      then show ?thesis using inr by simp
    next
      case False
      with i have "i < k" by simp
      then show ?thesis using zi by simp
    qed
  qed
  then show ?case
    unfolding F_def[symmetric] step Let_def using len z0 by simp
qed

lemma ZERO_HASHES_0: "ZERO_HASHES H ! 0 = getZeroValue H"
  using zero_fold[of TREE_DEPTH H] by (simp add: ZERO_HASHES_def computeZeroHashes_def Let_def del: replicate_Suc upt_Suc)

lemma ZERO_HASHES_Suc:
  "l < TREE_DEPTH \<Longrightarrow> ZERO_HASHES H ! (l + 1) = hashPair H (ZERO_HASHES H ! l) (ZERO_HASHES H ! l)"
  using zero_fold[of TREE_DEPTH H] by (simp add: ZERO_HASHES_def computeZeroHashes_def Let_def del: replicate_Suc upt_Suc)

lemma new_tree_consistent: "consistent H new_tree"
  using ZERO_HASHES_Suc[of _ H]
  by (auto simp add: consistent_def parent_ok_def new_tree_def siblingHash_at_def getNode_def ZERO_HASHES_0[symmetric])

lemma sib_setNode:
  "siblingHash_at H lvs (setNode nds l' j' v) l j =
     (if l = l' \<and> j = j' \<and> l \<noteq> 0 then v else siblingHash_at H lvs nds l j)"
  by (auto simp: siblingHash_at_def setNode_def getNode_def getNodeKey_def)

lemma half_cases:
  fixes c :: nat
  shows "(c mod 2 = 1 \<and> c = 2 * (c div 2) + 1 \<and> c - 1 = 2 * (c div 2)) \<or>
         (c mod 2 \<noteq> 1 \<and> c = 2 * (c div 2) \<and> c + 1 = 2 * (c div 2) + 1)"
  by presburger

lemma div_pow_Suc: "(index :: nat) div 2 ^ k div 2 = index div 2 ^ (k + 1)"
proof -
  have "index div 2 ^ (k + 1) = index div (2 ^ k * 2)" by (simp add: mult.commute)
  also have "\<dots> = index div 2 ^ k div 2" by (rule div_mult2_eq)
  finally show ?thesis by simp
qed

lemma updatePath_step:
  assumes k: "k < TREE_DEPTH"
    and inv: "path_inv H lvs nds index k"
    and ch: "ch = siblingHash_at H lvs nds k (index div 2 ^ k)"
  shows "\<exists>ch'. updatePath_body H lvs k (index div 2 ^ k, ch, nds) =
           (index div 2 ^ (k + 1), ch', setNode nds (k + 1) (index div 2 ^ (k + 1)) ch') \<and>
         path_inv H lvs (setNode nds (k + 1) (index div 2 ^ (k + 1)) ch') index (k + 1)"
proof -
  define c where "c = index div 2 ^ k"
  define q where "q = index div 2 ^ (k + 1)"
  have cq: "c div 2 = q" unfolding c_def q_def by (rule div_pow_Suc)
  define sib where "sib = siblingHash_at H lvs nds k (if c mod 2 = 1 then c - 1 else c + 1)"
  define ph where "ph = (if c mod 2 = 1 then hashPair H sib ch else hashPair H ch sib)"
  have body: "updatePath_body H lvs k (c, ch, nds) = (q, ph, setNode nds (k + 1) q ph)"
    by (simp add: updatePath_body_def Let_def cq ph_def sib_def)
  have ph_eq: "ph = hashPair H (siblingHash_at H lvs nds k (2 * q)) (siblingHash_at H lvs nds k (2 * q + 1))"
    using half_cases[of c] unfolding ph_def sib_def ch c_def[symmetric] cq by auto
  let ?nds' = "setNode nds (k + 1) q ph"
  have "parent_ok H lvs ?nds' l j" if "l < k + 1" for l j
  proof (cases "l = k")
    case False
    with that have lk: "l < k" by simp
    then have "parent_ok H lvs nds l j" using inv by (simp add: path_inv_def)
    with lk show ?thesis by (simp add: parent_ok_def sib_setNode)
  next
    case True
    show ?thesis
    proof (cases "j = q")
      case True
      with \<open>l = k\<close> show ?thesis by (simp add: parent_ok_def sib_setNode ph_eq)
    next
      case False
      then have "parent_ok H lvs nds k j" using inv k by (simp add: path_inv_def q_def)
      with False \<open>l = k\<close> show ?thesis by (simp add: parent_ok_def sib_setNode)
    qed
  qed
  moreover have "parent_ok H lvs ?nds' l j"
    if "k + 1 \<le> l" "l < TREE_DEPTH" "j \<noteq> index div 2 ^ (l + 1)" for l j
  proof -
    have old: "parent_ok H lvs nds l j" using inv that by (simp add: path_inv_def)
    have "\<not> (l = k + 1 \<and> (2 * j = q \<or> 2 * j + 1 = q))"
    proof
      assume a: "l = k + 1 \<and> (2 * j = q \<or> 2 * j + 1 = q)"
      then have "j = q div 2" by auto
      also have "\<dots> = index div 2 ^ (k + 1 + 1)" unfolding q_def by (rule div_pow_Suc)
      finally show False using that(3) a by simp
    qed
    with old that(1) show ?thesis by (auto simp add: parent_ok_def sib_setNode)
  qed
  ultimately have "path_inv H lvs ?nds' index (k + 1)"
    by (simp add: path_inv_def)
  with body show ?thesis unfolding c_def q_def by blast
qed

lemma updatePath_loop:
  assumes inv0: "path_inv H lvs nds0 index 0" and leaf: "lvs index = Some leaf"
  shows "k \<le> TREE_DEPTH \<Longrightarrow>
     \<exists>ch nds. fold (updatePath_body H lvs) [0 ..< k] (index, leaf, nds0) = (index div 2 ^ k, ch, nds) \<and>
        ch = siblingHash_at H lvs nds k (index div 2 ^ k) \<and>
        path_inv H lvs nds index k \<and>
        (\<forall>key. nds0 key \<noteq> None \<longrightarrow> nds key \<noteq> None) \<and>
        (0 < k \<longrightarrow> nds (k, index div 2 ^ k) \<noteq> None)"
proof (induction k)
  case 0
  show ?case using inv0 leaf by (simp add: siblingHash_at_def)
next
  case (Suc k)
  then obtain ch nds where
    f: "fold (updatePath_body H lvs) [0 ..< k] (index, leaf, nds0) = (index div 2 ^ k, ch, nds)"
    and ch: "ch = siblingHash_at H lvs nds k (index div 2 ^ k)"
    and inv: "path_inv H lvs nds index k"
    and mono: "\<forall>key. nds0 key \<noteq> None \<longrightarrow> nds key \<noteq> None"
    by auto
  from Suc.prems have k: "k < TREE_DEPTH" by simp
  from updatePath_step[OF k inv ch] obtain ch' where
    b: "updatePath_body H lvs k (index div 2 ^ k, ch, nds) =
           (index div 2 ^ (k + 1), ch', setNode nds (k + 1) (index div 2 ^ (k + 1)) ch')"
    and inv': "path_inv H lvs (setNode nds (k + 1) (index div 2 ^ (k + 1)) ch') index (k + 1)"
    by blast
  let ?nds' = "setNode nds (k + 1) (index div 2 ^ (k + 1)) ch'"
  have f': "fold (updatePath_body H lvs) [0 ..< Suc k] (index, leaf, nds0) = (index div 2 ^ Suc k, ch', ?nds')"
    using f b by simp
  have ch'': "ch' = siblingHash_at H lvs ?nds' (Suc k) (index div 2 ^ Suc k)"
    by (simp add: sib_setNode)
  have mono': "\<forall>key. nds0 key \<noteq> None \<longrightarrow> ?nds' key \<noteq> None"
    using mono by (simp add: setNode_def)
  have set': "?nds' (Suc k, index div 2 ^ Suc k) \<noteq> None"
    by (simp add: setNode_def getNodeKey_def)
  show ?case using f' ch'' inv' mono' set' by (intro exI[of _ ch'] exI[of _ ?nds']) simp
qed

lemma path_inv_leaf_write:
  assumes "consistent H t"
  shows "path_inv H ((leaves t)(i \<mapsto> v)) (nodes t) i 0"
proof -
  have "parent_ok H ((leaves t)(i \<mapsto> v)) (nodes t) l j"
    if "l < TREE_DEPTH" "j \<noteq> i div 2 ^ (l + 1)" for l j
  proof -
    have old: "parent_ok H (leaves t) (nodes t) l j"
      using assms that(1) by (simp add: consistent_def)
    have "\<not> (l = 0 \<and> (2 * j = i \<or> 2 * j + 1 = i))"
      using that(2) by auto
    with old show ?thesis
      by (auto simp add: parent_ok_def siblingHash_at_def)
  qed
  then show ?thesis by (simp add: path_inv_def)
qed

lemma path_inv_full: "path_inv H lvs nds index TREE_DEPTH \<Longrightarrow> l < TREE_DEPTH \<Longrightarrow> parent_ok H lvs nds l j"
  by (simp add: path_inv_def)

lemma updatePath_ok:
  assumes c: "consistent H t0"
    and t: "t = t0\<lparr>leaves := (leaves t0)(i \<mapsto> v)\<rparr>"
  shows "\<exists>t'. updatePath H t i = Inr t' \<and> consistent H t' \<and>
           leaves t' = leaves t \<and> nextIndex t' = nextIndex t0 \<and>
           (\<forall>key. nodes t0 key \<noteq> None \<longrightarrow> nodes t' key \<noteq> None) \<and>
           (i < MAX_LEAVES \<longrightarrow> nodes t' (TREE_DEPTH, 0) \<noteq> None)"
proof -
  have inv0: "path_inv H (leaves t) (nodes t) i 0"
    using path_inv_leaf_write[OF c] t by simp
  have leaf: "leaves t i = Some v" using t by simp
  from updatePath_loop[OF inv0 leaf, of TREE_DEPTH] obtain ch nds where
    f: "fold (updatePath_body H (leaves t)) [0 ..< TREE_DEPTH] (i, v, nodes t) = (i div 2 ^ TREE_DEPTH, ch, nds)"
    and inv: "path_inv H (leaves t) nds i TREE_DEPTH"
    and mono: "\<forall>key. nodes t key \<noteq> None \<longrightarrow> nds key \<noteq> None"
    and top: "0 < TREE_DEPTH \<longrightarrow> nds (TREE_DEPTH, i div 2 ^ TREE_DEPTH) \<noteq> None"
    by auto
  have up: "updatePath H t i = Inr (t\<lparr>nodes := nds\<rparr>)"
    by (simp add: updatePath_def leaf f)
  have parent_ok': "consistent H (t\<lparr>nodes := nds\<rparr>)"
    using path_inv_full[OF inv] by (simp add: consistent_def)
  have "i < MAX_LEAVES \<longrightarrow> nds (TREE_DEPTH, 0) \<noteq> None"
    using top by (auto simp add: MAX_LEAVES_def TREE_DEPTH_def)
  with up parent_ok' mono t show ?thesis by simp
qed

lemma insert_leaf_full:
  "MAX_LEAVES \<le> nextIndex t \<Longrightarrow> insert_leaf H t leaf = (Inl TreeFull, t)"
  by (simp add: insert_leaf_def)

lemma insert_leaf_ok:
  assumes inv: "tree_inv H t" and room: "nextIndex t < MAX_LEAVES"
  shows "\<exists>t'. insert_leaf H t leaf = (Inr (nextIndex t), t') \<and> tree_inv H t' \<and>
           leaves t' = (leaves t)(nextIndex t \<mapsto> leaf) \<and>
           nextIndex t' = nextIndex t + 1 \<and>
           (\<forall>key. nodes t key \<noteq> None \<longrightarrow> nodes t' key \<noteq> None)"
proof -
  from inv have c: "consistent H t" by (simp add: tree_inv_def)
  from updatePath_ok[OF c refl, of "nextIndex t" leaf] room obtain t2 where
    up: "updatePath H (t\<lparr>leaves := (leaves t)(nextIndex t \<mapsto> leaf)\<rparr>) (nextIndex t) = Inr t2"
    and c2: "consistent H t2"
    and l2: "leaves t2 = (leaves t)(nextIndex t \<mapsto> leaf)"
    and n2: "nextIndex t2 = nextIndex t"
    and mono: "\<forall>key. nodes t key \<noteq> None \<longrightarrow> nodes t2 key \<noteq> None"
    and top: "nodes t2 (TREE_DEPTH, 0) \<noteq> None"
    by auto
  let ?t' = "t2\<lparr>nextIndex := nextIndex t2 + 1\<rparr>"
  have r: "insert_leaf H t leaf = (Inr (nextIndex t), ?t')"
    using room by (simp add: insert_leaf_def Let_def up)
  have "consistent H ?t'" using c2 by (simp add: consistent_def)
  then have "tree_inv H ?t'" using room top n2 by (simp add: tree_inv_def)
  with r l2 n2 mono show ?thesis by simp
qed

lemma update_invalid:
  "index < 0 \<or> int (nextIndex t) \<le> index \<Longrightarrow> update H t index newLeaf = (Inl InvalidIndex, t)"
  by (auto simp add: update_def)

lemma update_ok:
  assumes inv: "tree_inv H t" and lo: "0 \<le> index" and hi: "index < int (nextIndex t)"
  shows "\<exists>t'. update H t index newLeaf = (Inr (), t') \<and> tree_inv H t' \<and>
           leaves t' = (leaves t)(nat index \<mapsto> newLeaf) \<and>
           nextIndex t' = nextIndex t \<and>
           (\<forall>key. nodes t key \<noteq> None \<longrightarrow> nodes t' key \<noteq> None)"
proof -
  from inv have c: "consistent H t" by (simp add: tree_inv_def)
  from updatePath_ok[OF c refl, of "nat index" newLeaf] obtain t2 where
    up: "updatePath H (t\<lparr>leaves := (leaves t)(nat index \<mapsto> newLeaf)\<rparr>) (nat index) = Inr t2"
    and c2: "consistent H t2"
    and l2: "leaves t2 = (leaves t)(nat index \<mapsto> newLeaf)"
    and n2: "nextIndex t2 = nextIndex t"
    and mono: "\<forall>key. nodes t key \<noteq> None \<longrightarrow> nodes t2 key \<noteq> None"
    by auto
  have r: "update H t index newLeaf = (Inr (), t2)"
    using lo hi by (simp add: update_def Let_def up)
  have "tree_inv H t2" using c2 n2 inv mono hi by (auto simp add: tree_inv_def)
  with r l2 n2 mono show ?thesis by simp
qed

lemma tree_inv_new: "tree_inv H new_tree"
  using new_tree_consistent[of H] by (simp add: tree_inv_def new_tree_def)

lemma tree_inv_insert: "tree_inv H t \<Longrightarrow> tree_inv H (snd (insert_leaf H t leaf))"
proof (cases "nextIndex t < MAX_LEAVES")
  case True
  assume "tree_inv H t"
  from insert_leaf_ok[OF this True, of leaf] show ?thesis by auto
next
  case False
  assume "tree_inv H t"
  with False show ?thesis by (simp add: insert_leaf_full)
qed

lemma tree_inv_update: "tree_inv H t \<Longrightarrow> tree_inv H (snd (update H t index newLeaf))"
proof (cases "0 \<le> index \<and> index < int (nextIndex t)")
  case True
  assume "tree_inv H t"
  from update_ok[OF this, of index newLeaf] True show ?thesis by auto
next
  case False
  assume "tree_inv H t"
  with False show ?thesis by (auto simp add: update_invalid)
qed

lemma reachable_inv: "reachable H t \<Longrightarrow> tree_inv H t"
  by (induction rule: reachable.induct)
     (simp_all add: tree_inv_new tree_inv_insert tree_inv_update delete_def)

lemma getMerklePath_loop:
  "fold (getMerklePath_body H t) [0 ..< k] (i, [], []) = (i div 2 ^ k, path_of H t i k, bits_of i k)"
proof (induction k)
  case 0
  show ?case by (simp add: path_of_def bits_of_def)
next
  case (Suc k)
  have "fold (getMerklePath_body H t) [0 ..< Suc k] (i, [], []) =
        getMerklePath_body H t k (i div 2 ^ k, path_of H t i k, bits_of i k)"
    using Suc.IH by simp
  also have "\<dots> = (i div 2 ^ Suc k, path_of H t i (Suc k), bits_of i (Suc k))"
    using div_pow_Suc[of i k]
    by (simp add: getMerklePath_body_def Let_def path_of_def bits_of_def sibling_index_def)
  finally show ?case .
qed

lemma getMerklePath_ok:
  "i < nextIndex t \<Longrightarrow>
   getMerklePath H t (int i) = Inr (path_of H t i TREE_DEPTH, bits_of i TREE_DEPTH)"
  by (simp add: getMerklePath_def getMerklePath_loop)

lemma bit_step: "(i :: nat) mod 2 ^ Suc k = i mod 2 ^ k + (i div 2 ^ k mod 2) * 2 ^ k"
proof -
  have "i mod (2 ^ k * 2) = 2 ^ k * (i div 2 ^ k mod 2) + i mod 2 ^ k"
    by (rule mod_mult2_eq)
  then show ?thesis by (simp add: mult.commute)
qed

lemma reconstruct_loop:
  "k \<le> n \<Longrightarrow>
   fold (reconstructIndex_body (bits_of i n)) [0 ..< k] (0, 1) = (int (i mod 2 ^ k), 2 ^ k)"
proof (induction k)
  case 0
  show ?case by simp
next
  case (Suc k)
  then have kn: "k < n" by simp
  have bit: "bits_of i n ! k = int (i div 2 ^ k mod 2)"
    using kn by (auto simp add: bits_of_def)
  have "int (i mod 2 ^ Suc k) = int (i mod 2 ^ k) + int (i div 2 ^ k mod 2) * 2 ^ k"
    by (simp only: bit_step) simp
  then show ?case using Suc.IH kn by (simp add: bit reconstructIndex_body_def)
qed

lemma verify_hash_loop:
  assumes c: "consistent H t" and leaf: "leaves t i = Some leaf"
  shows "k \<le> TREE_DEPTH \<Longrightarrow>
   \<exists>calls. fold (verifyMerkleProof_body H (path_of H t i TREE_DEPTH) (bits_of i TREE_DEPTH))
     [0 ..< k] (leaf, []) =
     (siblingHash_at H (leaves t) (nodes t) k (i div 2 ^ k), calls)"
proof (induction k)
  case 0
  show ?case using leaf by (simp add: siblingHash_at_def)
next
  case (Suc k)
  then have k: "k < TREE_DEPTH" by simp
  let ?F = "verifyMerkleProof_body H (path_of H t i TREE_DEPTH) (bits_of i TREE_DEPTH)"
  from Suc obtain calls where
    f: "fold ?F [0 ..< k] (leaf, []) = (siblingHash_at H (leaves t) (nodes t) k (i div 2 ^ k), calls)"
    by auto
  define c where "c = i div 2 ^ k"
  have bit: "bits_of i TREE_DEPTH ! k = (if c mod 2 = 1 then 1 else 0)"
    using k by (simp add: bits_of_def c_def)
  have pth: "path_of H t i TREE_DEPTH ! k = siblingHash_at H (leaves t) (nodes t) k (sibling_index c)"
    using k by (simp add: path_of_def c_def)
  have cq: "c div 2 = i div 2 ^ Suc k" unfolding c_def using div_pow_Suc[of i k] by simp
  have parent_ok: "siblingHash_at H (leaves t) (nodes t) (Suc k) (c div 2) =
      hashPair H (siblingHash_at H (leaves t) (nodes t) k (2 * (c div 2)))
                 (siblingHash_at H (leaves t) (nodes t) k (2 * (c div 2) + 1))"
    using c k by (simp add: consistent_def parent_ok_def)
  have "\<exists>pr. ?F k (siblingHash_at H (leaves t) (nodes t) k c, calls) =
        (siblingHash_at H (leaves t) (nodes t) (Suc k) (c div 2), calls @ [pr])"
    using half_cases[of c]
    by (auto simp add: verifyMerkleProof_body_def bit pth parent_ok sibling_index_def Let_def)
  then show ?case using f unfolding c_def[symmetric] cq[symmetric] by auto
qed

lemma TREE_DEPTH_pos: "0 < TREE_DEPTH"
  by (simp add: TREE_DEPTH_def)

lemma getRoot_top:
  "0 < nextIndex t \<Longrightarrow> getRoot H t = siblingHash_at H (leaves t) (nodes t) TREE_DEPTH 0"
  using TREE_DEPTH_pos by (auto simp add: getRoot_def siblingHash_at_def)

lemma path_of_length: "length (path_of H t i k) = k"
  by (simp add: path_of_def)

lemma bits_of_length: "length (bits_of i k) = k"
  by (simp add: bits_of_def)

lemma proof_ok:
  assumes inv: "tree_inv H t" and i: "i < nextIndex t" and leaf: "leaves t i = Some leaf"
  shows "verifyMerkleProof H leaf (int i) (path_of H t i TREE_DEPTH) (bits_of i TREE_DEPTH) (getRoot H t)"
proof -
  from inv have c: "consistent H t" and le: "nextIndex t \<le> MAX_LEAVES" by (simp_all add: tree_inv_def)
  have small: "i < 2 ^ TREE_DEPTH" using i le by (simp add: MAX_LEAVES_def)
  then have m: "i mod 2 ^ TREE_DEPTH = i" and d: "i div 2 ^ TREE_DEPTH = 0" by simp_all
  from verify_hash_loop[OF c leaf, of TREE_DEPTH] obtain calls where
    h: "fold (verifyMerkleProof_body H (path_of H t i TREE_DEPTH) (bits_of i TREE_DEPTH))
     [0 ..< TREE_DEPTH] (leaf, []) = (getRoot H t, calls)"
    using i by (auto simp add: d getRoot_top)
  show ?thesis
    unfolding verifyMerkleProof_def verifyMerkleProof_run_def
    by (simp add: path_of_length bits_of_length reconstruct_loop[OF le_refl] m h)
qed

lemma insert_all_ok:
  "tree_inv H t \<Longrightarrow> nextIndex t + length ls \<le> MAX_LEAVES \<Longrightarrow>
   \<exists>t'. insert_all H t ls = Inr t' \<and> tree_inv H t' \<and>
        nextIndex t' = nextIndex t + length ls \<and>
        (\<forall>i < length ls. leaves t' (nextIndex t + i) = Some (ls ! i)) \<and>
        (\<forall>i < nextIndex t. leaves t' i = leaves t i)"
proof (induction ls arbitrary: t)
  case Nil
  then show ?case by simp
next
  case (Cons leaf ls)
  from Cons.prems have room: "nextIndex t < MAX_LEAVES" by simp
  from insert_leaf_ok[OF Cons.prems(1) room, of leaf] obtain t1 where
    ins: "insert_leaf H t leaf = (Inr (nextIndex t), t1)" and inv1: "tree_inv H t1"
    and l1: "leaves t1 = (leaves t)(nextIndex t \<mapsto> leaf)"
    and n1: "nextIndex t1 = nextIndex t + 1"
    by auto
  have "nextIndex t1 + length ls \<le> MAX_LEAVES" using Cons.prems(2) n1 by simp
  from Cons.IH[OF inv1 this] obtain t' where
    all: "insert_all H t1 ls = Inr t'" and inv': "tree_inv H t'"
    and n': "nextIndex t' = nextIndex t1 + length ls"
    and new: "\<forall>i < length ls. leaves t' (nextIndex t1 + i) = Some (ls ! i)"
    and old: "\<forall>i < nextIndex t1. leaves t' i = leaves t1 i"
    by auto
  have r: "insert_all H t (leaf # ls) = Inr t'" using ins all by simp
  have a: "\<forall>i < length (leaf # ls). leaves t' (nextIndex t + i) = Some ((leaf # ls) ! i)"
  proof (intro allI impI)
    fix i assume i: "i < length (leaf # ls)"
    show "leaves t' (nextIndex t + i) = Some ((leaf # ls) ! i)"
    proof (cases i)
      case 0
      then show ?thesis using old l1 n1 by simp
    next
      case (Suc m)
      then show ?thesis using new i n1 by simp
    qed
  qed
  have b: "\<forall>i < nextIndex t. leaves t' i = leaves t i"
    using old l1 n1 by simp
  show ?case using r inv' n' n1 a b by simp
qed

lemma zero_leaves_level:
  assumes c: "consistent H t"
    and z: "\<forall>j. siblingHash_at H (leaves t) (nodes t) 0 j = getZeroValue H"
  shows "l \<le> TREE_DEPTH \<Longrightarrow> siblingHash_at H (leaves t) (nodes t) l j = ZERO_HASHES H ! l"
proof (induction l arbitrary: j)
  case 0
  show ?case using z by (simp add: ZERO_HASHES_0)
next
  case (Suc l)
  then have l: "l < TREE_DEPTH" by simp
  have "siblingHash_at H (leaves t) (nodes t) (l + 1) j =
        hashPair H (siblingHash_at H (leaves t) (nodes t) l (2 * j))
                   (siblingHash_at H (leaves t) (nodes t) l (2 * j + 1))"
    using c l by (simp add: consistent_def parent_ok_def)
  also have "\<dots> = hashPair H (ZERO_HASHES H ! l) (ZERO_HASHES H ! l)"
    using Suc.IH l by simp
  also have "\<dots> = ZERO_HASHES H ! (l + 1)"
    using ZERO_HASHES_Suc[OF l, of H] by simp
  finally show ?case by simp
qed

lemma zero_leaves_root:
  assumes inv: "tree_inv H t"
    and z: "\<forall>j. leaves t j = None \<or> leaves t j = Some (getZeroValue H)"
  shows "getRoot H t = ZERO_HASHES H ! TREE_DEPTH"
proof (cases "nextIndex t = 0")
  case True
  then show ?thesis by (simp add: getRoot_def)
next
  case False
  from inv have c: "consistent H t" by (simp add: tree_inv_def)
  have z': "\<forall>j. siblingHash_at H (leaves t) (nodes t) 0 j = getZeroValue H"
  proof
    fix j
    from z have "leaves t j = None \<or> leaves t j = Some (getZeroValue H)" by blast
    then show "siblingHash_at H (leaves t) (nodes t) 0 j = getZeroValue H"
      by (auto simp add: siblingHash_at_def)
  qed
  from False have "getRoot H t = siblingHash_at H (leaves t) (nodes t) TREE_DEPTH 0"
    by (simp add: getRoot_top)
  with zero_leaves_level[OF c z' le_refl] show ?thesis by simp
qed

lemma MAX_LEAVES_pos: "0 < MAX_LEAVES"
  by (simp add: MAX_LEAVES_def)

lemma insertMember_zero_root:
  "nextIndex (snd (insertMember H new_tree 0)) = 1 \<and>
   getRoot H (snd (insertMember H new_tree 0)) = ZERO_HASHES H ! TREE_DEPTH"
proof -
  have room: "nextIndex new_tree < MAX_LEAVES" using MAX_LEAVES_pos by (simp add: new_tree_def)
  from insert_leaf_ok[OF tree_inv_new room, of H "hashLeaf H 0"] obtain t' where
    r: "insert_leaf H new_tree (hashLeaf H 0) = (Inr (nextIndex new_tree), t')"
    and inv: "tree_inv H t'"
    and lv: "leaves t' = (leaves new_tree)(nextIndex new_tree \<mapsto> hashLeaf H 0)"
    and n: "nextIndex t' = nextIndex new_tree + 1"
    by auto
  have z: "\<forall>j. leaves t' j = None \<or> leaves t' j = Some (getZeroValue H)"
    by (simp add: lv new_tree_def hashLeaf_def getZeroValue_def)
  from zero_leaves_root[OF inv z] r n show ?thesis
    by (simp add: insertMember_def new_tree_def)
qed

lemma insert_delete_root:
  "nextIndex (snd (delete H (snd (insert_leaf H new_tree leaf)) 0)) = 1 \<and>
   getRoot H (snd (delete H (snd (insert_leaf H new_tree leaf)) 0)) = ZERO_HASHES H ! TREE_DEPTH"
proof -
  have room: "nextIndex new_tree < MAX_LEAVES" using MAX_LEAVES_pos by (simp add: new_tree_def)
  from insert_leaf_ok[OF tree_inv_new room, of H leaf] obtain t1 where
    r1: "insert_leaf H new_tree leaf = (Inr (nextIndex new_tree), t1)"
    and inv1: "tree_inv H t1"
    and lv1: "leaves t1 = (leaves new_tree)(nextIndex new_tree \<mapsto> leaf)"
    and n1: "nextIndex t1 = nextIndex new_tree + 1"
    by auto
  have hi: "(0::int) < int (nextIndex t1)" using n1 by simp
  from update_ok[OF inv1 order_refl hi, of "getZeroValue H"] obtain t2 where
    r2: "update H t1 0 (getZeroValue H) = (Inr (), t2)"
    and inv2: "tree_inv H t2"
    and lv2: "leaves t2 = (leaves t1)(nat 0 \<mapsto> getZeroValue H)"
    and n2: "nextIndex t2 = nextIndex t1"
    by auto
  have z: "\<forall>j. leaves t2 j = None \<or> leaves t2 j = Some (getZeroValue H)"
    by (simp add: lv2 lv1 new_tree_def)
  from zero_leaves_root[OF inv2 z] r1 r2 n1 n2 show ?thesis
    by (simp add: delete_def new_tree_def)
qed

lemma reachable_insert_all:
  "reachable H t \<Longrightarrow> insert_all H t ls = Inr t' \<Longrightarrow> reachable H t'"
proof (induction ls arbitrary: t)
  case Nil
  then show ?case by simp
next
  case (Cons leaf ls)
  obtain r t1 where ins: "insert_leaf H t leaf = (r, t1)" by (cases "insert_leaf H t leaf")
  with Cons.prems(2) obtain index where "r = Inr index" and rest: "insert_all H t1 ls = Inr t'"
    by (cases r) auto
  have "reachable H t1" using reach_insert[OF Cons.prems(1), of leaf] ins by simp
  from Cons.IH[OF this rest] show ?case .
qed

lemma full_tree_reachable: "\<exists>t. reachable H t \<and> nextIndex t = MAX_LEAVES"
proof -
  have "nextIndex new_tree + length (replicate MAX_LEAVES (0::int)) \<le> MAX_LEAVES"
    by (simp add: new_tree_def)
  from insert_all_ok[OF tree_inv_new this] obtain t where
    a: "insert_all H new_tree (replicate MAX_LEAVES 0) = Inr t" and n: "nextIndex t = MAX_LEAVES"
    by (auto simp add: new_tree_def)
  from reachable_insert_all[OF reach_new a] n show ?thesis by blast
qed

section \<open>The tree: the claims\<close>

text \<open>
  Claim C1. For every list of leaves within the capacity \<open>2 ^ TREE_DEPTH\<close>, inserted one
  after the other into a new tree, every insert succeeds, and for every populated index
  \<open>i\<close> the path and direction bits that \<open>getMerklePath\<close> returns for \<open>i\<close> make
  \<open>verifyMerkleProof\<close> answer true for the \<open>i\<close>-th leaf against \<open>getRoot\<close>. This holds
  for every hash function \<open>H\<close>.
\<close>

theorem merkle_proof_roundtrip:
  "length ls \<le> MAX_LEAVES \<Longrightarrow> i < length ls \<Longrightarrow>
   \<exists>t path pathIndices.
     insert_all H new_tree ls = Inr t \<and>
     getMerklePath H t (int i) = Inr (path, pathIndices) \<and>
     verifyMerkleProof H (ls ! i) (int i) path pathIndices (getRoot H t)"
proof -
  assume len: "length ls \<le> MAX_LEAVES" and i: "i < length ls"
  have "nextIndex new_tree + length ls \<le> MAX_LEAVES" using len by (simp add: new_tree_def)
  from insert_all_ok[OF tree_inv_new this] obtain t where
    all: "insert_all H new_tree ls = Inr t" and inv: "tree_inv H t"
    and n: "nextIndex t = length ls"
    and lv: "\<forall>i < length ls. leaves t i = Some (ls ! i)"
    by (auto simp add: new_tree_def)
  have i': "i < nextIndex t" using i n by simp
  have "verifyMerkleProof H (ls ! i) (int i) (path_of H t i TREE_DEPTH) (bits_of i TREE_DEPTH) (getRoot H t)"
    using proof_ok[OF inv i'] lv i by simp
  with all getMerklePath_ok[OF i', of H] show ?thesis by blast
qed

theorem merkle_proof_roundtrip_witness:
  "length [7, 8, 9 :: int] \<le> MAX_LEAVES \<and> (2::nat) < length [7, 8, 9 :: int] \<and>
   (\<exists>t path pathIndices.
     insert_all toy_hash new_tree [7, 8, 9] = Inr t \<and>
     getMerklePath toy_hash t 2 = Inr (path, pathIndices) \<and>
     verifyMerkleProof toy_hash ([7, 8, 9] ! 2) 2 path pathIndices (getRoot toy_hash t))"
proof -
  have len: "length [7, 8, 9 :: int] \<le> MAX_LEAVES" by (simp add: MAX_LEAVES_def TREE_DEPTH_def)
  have i: "(2::nat) < length [7, 8, 9 :: int]" by simp
  show ?thesis using len i merkle_proof_roundtrip[OF len i, of toy_hash] by simp
qed

text \<open>
  Claim C5, as the spec states it, has the root equal to \<open>ZERO_HASHES[TREE_DEPTH]\<close> only
  when the tree holds no leaf. It fails, whatever the hash function: after
  \<open>insertMember(0)\<close> on a new tree the one leaf is \<open>poseidon2([0])\<close>, the zero value
  itself, so every node on its path is the zero hash of its level; the same happens
  after \<open>insert(5)\<close> and \<open>delete(0)\<close>. In both trees the leaf count is 1 and the root is
  \<open>ZERO_HASHES[TREE_DEPTH]\<close>.
\<close>

theorem getRoot_zero_iff_empty_counterexample:
  "reachable toy_hash (snd (insertMember toy_hash new_tree 0)) \<and>
   nextIndex (snd (insertMember toy_hash new_tree 0)) = 1 \<and>
   getRoot toy_hash (snd (insertMember toy_hash new_tree 0)) = ZERO_HASHES toy_hash ! TREE_DEPTH \<and>
   reachable toy_hash (snd (delete toy_hash (snd (insert_leaf toy_hash new_tree 5)) 0)) \<and>
   nextIndex (snd (delete toy_hash (snd (insert_leaf toy_hash new_tree 5)) 0)) = 1 \<and>
   getRoot toy_hash (snd (delete toy_hash (snd (insert_leaf toy_hash new_tree 5)) 0)) =
     ZERO_HASHES toy_hash ! TREE_DEPTH"
proof -
  have "reachable toy_hash (snd (insertMember toy_hash new_tree 0))"
    unfolding insertMember_def by (intro reach_insert reach_new)
  moreover have "reachable toy_hash (snd (delete toy_hash (snd (insert_leaf toy_hash new_tree 5)) 0))"
    by (intro reach_delete reach_insert reach_new)
  ultimately show ?thesis
    using insertMember_zero_root[of toy_hash] insert_delete_root[of toy_hash 5] by simp
qed

text \<open>
  Claim C5, amended. For every tree state reachable by \<open>insert\<close>, \<open>update\<close> and
  \<open>delete\<close>: when the leaf count is zero, \<open>getRoot\<close> is \<open>ZERO_HASHES[TREE_DEPTH]\<close>;
  otherwise the node \<open>(TREE_DEPTH, 0)\<close> is stored and \<open>getRoot\<close> is its value.
\<close>

theorem getRoot_reachable:
  "reachable H t \<Longrightarrow>
   (nextIndex t = 0 \<longrightarrow> getRoot H t = ZERO_HASHES H ! TREE_DEPTH) \<and>
   (nextIndex t \<noteq> 0 \<longrightarrow>
      (\<exists>v. getNode (nodes t) TREE_DEPTH 0 = Some v \<and> getRoot H t = v))"
proof -
  assume "reachable H t"
  then have "tree_inv H t" by (rule reachable_inv)
  then show ?thesis
    by (auto simp add: tree_inv_def getRoot_def getNode_def getNodeKey_def)
qed

theorem getRoot_reachable_witness:
  "reachable toy_hash new_tree \<and> nextIndex new_tree = 0 \<and>
   getRoot toy_hash new_tree = ZERO_HASHES toy_hash ! TREE_DEPTH \<and>
   reachable toy_hash (snd (insert_leaf toy_hash new_tree 5)) \<and>
   nextIndex (snd (insert_leaf toy_hash new_tree 5)) = 1 \<and>
   (\<exists>v. getNode (nodes (snd (insert_leaf toy_hash new_tree 5))) TREE_DEPTH 0 = Some v \<and>
        getRoot toy_hash (snd (insert_leaf toy_hash new_tree 5)) = v)"
proof -
  have r0: "reachable toy_hash new_tree" by (rule reach_new)
  have r1: "reachable toy_hash (snd (insert_leaf toy_hash new_tree 5))"
    by (intro reach_insert reach_new)
  have room: "nextIndex new_tree < MAX_LEAVES" using MAX_LEAVES_pos by (simp add: new_tree_def)
  from insert_leaf_ok[OF tree_inv_new room, of toy_hash 5]
  have n1: "nextIndex (snd (insert_leaf toy_hash new_tree 5)) = 1"
    by (auto simp add: new_tree_def)
  have n0: "nextIndex new_tree = 0" by (simp add: new_tree_def)
  show ?thesis
    using r0 r1 n0 n1 getRoot_reachable[OF r0] getRoot_reachable[OF r1] by simp
qed

text \<open>
  Claim C7. On every reachable tree, \<open>insert\<close> fails with \<open>TreeFull\<close> exactly when the
  tree holds \<open>2 ^ TREE_DEPTH\<close> leaves, and then the tree after the call is the tree
  before it (leaves, nodes and leaf count); otherwise it returns the next free index,
  stores the leaf at that index, leaves the other leaves as they were and increments
  the leaf count.
\<close>

theorem insert_leaf_TreeFull:
  "reachable H t \<Longrightarrow>
   (fst (insert_leaf H t leaf) = Inl TreeFull) = (nextIndex t = MAX_LEAVES) \<and>
   (nextIndex t = MAX_LEAVES \<longrightarrow> insert_leaf H t leaf = (Inl TreeFull, t)) \<and>
   (nextIndex t \<noteq> MAX_LEAVES \<longrightarrow>
      (\<exists>t'. insert_leaf H t leaf = (Inr (nextIndex t), t') \<and>
            leaves t' = (leaves t)(nextIndex t \<mapsto> leaf) \<and>
            nextIndex t' = nextIndex t + 1))"
proof -
  assume "reachable H t"
  then have inv: "tree_inv H t" by (rule reachable_inv)
  then have le: "nextIndex t \<le> MAX_LEAVES" by (simp add: tree_inv_def)
  show ?thesis
  proof (cases "nextIndex t = MAX_LEAVES")
    case True
    then show ?thesis by (simp add: insert_leaf_full)
  next
    case False
    with le have room: "nextIndex t < MAX_LEAVES" by simp
    from insert_leaf_ok[OF inv room, of leaf] False show ?thesis by auto
  qed
qed

theorem insert_leaf_TreeFull_witness:
  "reachable toy_hash new_tree \<and> fst (insert_leaf toy_hash new_tree 7) = Inr 0 \<and>
   (\<exists>t. reachable toy_hash t \<and> nextIndex t = MAX_LEAVES \<and>
        insert_leaf toy_hash t 7 = (Inl TreeFull, t))"
proof -
  have r0: "reachable toy_hash new_tree" by (rule reach_new)
  have n0: "nextIndex new_tree \<noteq> MAX_LEAVES" using MAX_LEAVES_pos by (simp add: new_tree_def)
  have a: "fst (insert_leaf toy_hash new_tree 7) = Inr 0"
    using insert_leaf_TreeFull[OF r0, of 7] n0 by (auto simp add: new_tree_def)
  from full_tree_reachable[of toy_hash] obtain t where
    rt: "reachable toy_hash t" and nt: "nextIndex t = MAX_LEAVES" by blast
  have "insert_leaf toy_hash t 7 = (Inl TreeFull, t)"
    using insert_leaf_TreeFull[OF rt, of 7] nt by simp
  with r0 a rt nt show ?thesis by blast
qed

text \<open>
  Claim C9. Whatever the leaf, the index and the root, \<open>verifyMerkleProof\<close> answers false
  when \<open>path\<close> or \<open>pathIndices\<close> is not of length \<open>TREE_DEPTH\<close>, and it has then made
  no call of \<open>hashPair\<close>.
\<close>

theorem verifyMerkleProof_wrong_length:
  "length path \<noteq> TREE_DEPTH \<or> length pathIndices \<noteq> TREE_DEPTH \<Longrightarrow>
   verifyMerkleProof H leaf index path pathIndices root = False \<and>
   verifyMerkleProof_hashCalls H leaf index path pathIndices root = []"
  by (auto simp add: verifyMerkleProof_def verifyMerkleProof_hashCalls_def verifyMerkleProof_run_def)

theorem verifyMerkleProof_wrong_length_witness:
  "length [1, 2 :: int] \<noteq> TREE_DEPTH \<and>
   \<not> verifyMerkleProof toy_hash 5 0 [1, 2] (replicate TREE_DEPTH 0) 9 \<and>
   verifyMerkleProof_hashCalls toy_hash 5 0 [1, 2] (replicate TREE_DEPTH 0) 9 = []"
proof -
  have h: "length [1, 2 :: int] \<noteq> TREE_DEPTH" by (simp add: TREE_DEPTH_def)
  then show ?thesis
    using verifyMerkleProof_wrong_length[of "[1, 2]" "replicate TREE_DEPTH 0" toy_hash 5 0 9] by simp
qed

section \<open>The batch manager: decimal keys, placement and invariants\<close>

lemma digit_char_inj: "a < 10 \<Longrightarrow> b < 10 \<Longrightarrow> digit_char a = digit_char b \<Longrightarrow> a = b"
proof -
  assume a: "a < 10" and b: "b < 10" and e: "digit_char a = digit_char b"
  have "of_char (digit_char a) = (48 + a) mod 256" "of_char (digit_char b) = (48 + b) mod 256"
    by (simp_all add: digit_char_def)
  with e have "(48 + a) mod 256 = (48 + b) mod 256" by simp
  with a b show "a = b" by simp
qed

lemma digit_char_not_minus: "d < 10 \<Longrightarrow> digit_char d \<noteq> CHR ''-''"
proof
  assume d: "d < 10" and e: "digit_char d = CHR ''-''"
  have "of_char (digit_char d) = (48 + d) mod 256" by (simp add: digit_char_def)
  with e have "(48 + d) mod 256 = (45::nat)" by simp
  with d show False by simp
qed

lemma toString_nat_small: "n < 10 \<Longrightarrow> toString_nat n = [digit_char n]"
  by (subst toString_nat.simps) simp

lemma toString_nat_big:
  "\<not> n < 10 \<Longrightarrow> toString_nat n = toString_nat (n div 10) @ [digit_char (n mod 10)]"
  by (subst toString_nat.simps) simp

lemma toString_nat_nonempty: "toString_nat n \<noteq> []"
  by (cases "n < 10") (simp_all add: toString_nat_small toString_nat_big)

lemma toString_nat_length_big: "\<not> n < 10 \<Longrightarrow> 2 \<le> length (toString_nat n)"
proof -
  assume n: "\<not> n < 10"
  have "1 \<le> length (toString_nat (n div 10))"
    using toString_nat_nonempty[of "n div 10"] by (cases "toString_nat (n div 10)") simp_all
  then show ?thesis by (simp add: toString_nat_big[OF n])
qed

lemma toString_nat_hd: "hd (toString_nat n) \<noteq> CHR ''-''"
proof (induction n rule: less_induct)
  case (less n)
  show ?case
  proof (cases "n < 10")
    case True
    then show ?thesis by (simp add: toString_nat_small digit_char_not_minus)
  next
    case False
    then have "n div 10 < n" by simp
    from less[OF this] show ?thesis
      using toString_nat_nonempty[of "n div 10"] by (simp add: toString_nat_big[OF False])
  qed
qed

lemma toString_nat_inj: "toString_nat a = toString_nat b \<Longrightarrow> a = b"
proof (induction a arbitrary: b rule: less_induct)
  case (less a)
  show ?case
  proof (cases "a < 10")
    case True
    show ?thesis
    proof (cases "b < 10")
      case b: True
      with True less.prems show ?thesis
        by (simp add: toString_nat_small digit_char_inj)
    next
      case b: False
      have "length (toString_nat a) = 1" using True by (simp add: toString_nat_small)
      with toString_nat_length_big[OF b] less.prems show ?thesis by simp
    qed
  next
    case False
    show ?thesis
    proof (cases "b < 10")
      case b: True
      have "length (toString_nat b) = 1" using b by (simp add: toString_nat_small)
      with toString_nat_length_big[OF False] less.prems show ?thesis by simp
    next
      case b: False
      from less.prems have e: "toString_nat (a div 10) @ [digit_char (a mod 10)] =
            toString_nat (b div 10) @ [digit_char (b mod 10)]"
        by (simp add: toString_nat_big[OF False] toString_nat_big[OF b])
      then have e1: "toString_nat (a div 10) = toString_nat (b div 10)"
        and e2: "digit_char (a mod 10) = digit_char (b mod 10)" by simp_all
      have "a div 10 < a" using False by simp
      from less.IH[OF this e1] have d: "a div 10 = b div 10" .
      have m: "a mod 10 = b mod 10" using e2 by (intro digit_char_inj) simp_all
      from d m show ?thesis by (metis div_mult_mod_eq)
    qed
  qed
qed

lemma toString_inj: "toString x = toString y \<Longrightarrow> x = y"
proof -
  assume e: "toString x = toString y"
  show ?thesis
  proof (cases "x < 0")
    case True
    show ?thesis
    proof (cases "y < 0")
      case y: True
      with True e have "toString_nat (nat (- x)) = toString_nat (nat (- y))" by (simp add: toString_def)
      then have "nat (- x) = nat (- y)" by (rule toString_nat_inj)
      with True y show ?thesis by simp
    next
      case y: False
      with True e have "CHR ''-'' # toString_nat (nat (- x)) = toString_nat (nat y)" by (simp add: toString_def)
      then have "hd (toString_nat (nat y)) = CHR ''-''" by (metis list.sel(1))
      with toString_nat_hd show ?thesis by blast
    qed
  next
    case False
    show ?thesis
    proof (cases "y < 0")
      case y: True
      with False e have "toString_nat (nat x) = CHR ''-'' # toString_nat (nat (- y))" by (simp add: toString_def)
      then have "hd (toString_nat (nat x)) = CHR ''-''" by simp
      with toString_nat_hd show ?thesis by blast
    next
      case y: False
      with False e have "toString_nat (nat x) = toString_nat (nat y)" by (simp add: toString_def)
      then have "nat x = nat y" by (rule toString_nat_inj)
      with False y show ?thesis by simp
    qed
  qed
qed

lemma fit_existing_spec:
  "length bs = length rs \<Longrightarrow>
   (fit_existing i (bs, rs, um) s = Inr None \<and>
      (\<forall>j. i \<le> j \<and> j < length rs \<longrightarrow> MAX_POLY_DEGREE \<le> length (rs ! j))) \<or>
   (\<exists>k. i \<le> k \<and> k < length rs \<and> length (rs ! k) < MAX_POLY_DEGREE \<and>
        (\<forall>j. i \<le> j \<and> j < k \<longrightarrow> MAX_POLY_DEGREE \<le> length (rs ! j)) \<and>
        fit_existing i (bs, rs, um) s =
          Inr (Some (bs[k := addRoot (bs ! k) s], rs[k := rs ! k @ [s]], um(toString s \<mapsto> k))))"
proof (induction "length rs - i" arbitrary: i)
  case 0
  then have "\<not> i < length rs" by simp
  then show ?case by (subst fit_existing.simps) simp
next
  case (Suc n)
  then have i: "i < length rs" by simp
  show ?case
  proof (cases "length (rs ! i) < MAX_POLY_DEGREE")
    case True
    have "fit_existing i (bs, rs, um) s =
          Inr (Some (bs[i := addRoot (bs ! i) s], rs[i := rs ! i @ [s]], um(toString s \<mapsto> i)))"
      using i True Suc.prems by (subst fit_existing.simps) simp
    with i True show ?thesis by (intro disjI2 exI[of _ i]) simp
  next
    case False
    have step: "fit_existing i (bs, rs, um) s = fit_existing (i + 1) (bs, rs, um) s"
      using i False by (subst fit_existing.simps) simp
    have n: "n = length rs - (i + 1)" using Suc.hyps(2) by simp
    from Suc.hyps(1)[OF n Suc.prems]
    show ?thesis
    proof
      assume a: "fit_existing (i + 1) (bs, rs, um) s = Inr None \<and>
        (\<forall>j. i + 1 \<le> j \<and> j < length rs \<longrightarrow> MAX_POLY_DEGREE \<le> length (rs ! j))"
      have "\<forall>j. i \<le> j \<and> j < length rs \<longrightarrow> MAX_POLY_DEGREE \<le> length (rs ! j)"
      proof (intro allI impI)
        fix j assume j: "i \<le> j \<and> j < length rs"
        show "MAX_POLY_DEGREE \<le> length (rs ! j)"
        proof (cases "j = i")
          case True then show ?thesis using False by simp
        next
          case False then show ?thesis using a j by simp
        qed
      qed
      with a step show ?thesis by simp
    next
      assume "\<exists>k. i + 1 \<le> k \<and> k < length rs \<and> length (rs ! k) < MAX_POLY_DEGREE \<and>
        (\<forall>j. i + 1 \<le> j \<and> j < k \<longrightarrow> MAX_POLY_DEGREE \<le> length (rs ! j)) \<and>
        fit_existing (i + 1) (bs, rs, um) s =
          Inr (Some (bs[k := addRoot (bs ! k) s], rs[k := rs ! k @ [s]], um(toString s \<mapsto> k)))"
      then obtain k where k: "i + 1 \<le> k" "k < length rs" "length (rs ! k) < MAX_POLY_DEGREE"
        and before: "\<forall>j. i + 1 \<le> j \<and> j < k \<longrightarrow> MAX_POLY_DEGREE \<le> length (rs ! j)"
        and r: "fit_existing (i + 1) (bs, rs, um) s =
          Inr (Some (bs[k := addRoot (bs ! k) s], rs[k := rs ! k @ [s]], um(toString s \<mapsto> k)))"
        by blast
      have "\<forall>j. i \<le> j \<and> j < k \<longrightarrow> MAX_POLY_DEGREE \<le> length (rs ! j)"
      proof (intro allI impI)
        fix j assume j: "i \<le> j \<and> j < k"
        show "MAX_POLY_DEGREE \<le> length (rs ! j)"
        proof (cases "j = i")
          case True then show ?thesis using False by simp
        next
          case False then show ?thesis using before j by simp
        qed
      qed
      with k r step show ?thesis by (intro disjI2 exI[of _ k]) simp
    qed
  qed
qed

lemma addSecret_placed:
  assumes len: "length bs = length rs"
  shows "\<exists>i st'. addSecret (bs, rs, um) s = Inr st' \<and> placed (bs, rs, um) s i st'"
proof -
  from fit_existing_spec[OF len, of 0 um s]
  show ?thesis
  proof
    assume a: "fit_existing 0 (bs, rs, um) s = Inr None \<and>
      (\<forall>j. 0 \<le> j \<and> j < length rs \<longrightarrow> MAX_POLY_DEGREE \<le> length (rs ! j))"
    then have "addSecret (bs, rs, um) s =
        Inr (bs @ [addRoot [1] s], rs @ [[s]], um(toString s \<mapsto> length rs))"
      by (simp add: addSecret_def Let_def)
    with a show ?thesis by (intro exI[of _ "length rs"]) (simp add: placed_def)
  next
    assume "\<exists>k. 0 \<le> k \<and> k < length rs \<and> length (rs ! k) < MAX_POLY_DEGREE \<and>
        (\<forall>j. 0 \<le> j \<and> j < k \<longrightarrow> MAX_POLY_DEGREE \<le> length (rs ! j)) \<and>
        fit_existing 0 (bs, rs, um) s =
          Inr (Some (bs[k := addRoot (bs ! k) s], rs[k := rs ! k @ [s]], um(toString s \<mapsto> k)))"
    then obtain k where k: "k < length rs" "length (rs ! k) < MAX_POLY_DEGREE"
      "\<forall>j. j < k \<longrightarrow> MAX_POLY_DEGREE \<le> length (rs ! j)"
      and r: "fit_existing 0 (bs, rs, um) s =
          Inr (Some (bs[k := addRoot (bs ! k) s], rs[k := rs ! k @ [s]], um(toString s \<mapsto> k)))"
      by auto
    from r have "addSecret (bs, rs, um) s =
        Inr (bs[k := addRoot (bs ! k) s], rs[k := rs ! k @ [s]], um(toString s \<mapsto> k))"
      by (simp add: addSecret_def)
    with k show ?thesis by (intro exI[of _ k]) (simp add: placed_def)
  qed
qed

lemma placed_lengths:
  "placed (bs, rs, um) s i (bs', rs', um') \<Longrightarrow> length bs = length rs \<Longrightarrow> length bs' = length rs'"
  by (auto simp add: placed_def)

lemma placed_cap:
  assumes p: "placed (bs, rs, um) s i (bs', rs', um')" and c: "cap_inv rs"
  shows "cap_inv rs'"
proof -
  from p have "(i < length rs \<and> length (rs ! i) < MAX_POLY_DEGREE \<and> rs' = rs[i := rs ! i @ [s]]) \<or>
     (i = length rs \<and> (\<forall>j. j < length rs \<longrightarrow> MAX_POLY_DEGREE \<le> length (rs ! j)) \<and> rs' = rs @ [[s]])"
    by (auto simp add: placed_def)
  then show ?thesis
  proof
    assume a: "i < length rs \<and> length (rs ! i) < MAX_POLY_DEGREE \<and> rs' = rs[i := rs ! i @ [s]]"
    have last: "\<not> i + 1 < length rs"
    proof
      assume "i + 1 < length rs"
      with c have "length (rs ! i) = MAX_POLY_DEGREE" by (simp add: cap_inv_def)
      with a show False by simp
    qed
    show ?thesis
      unfolding cap_inv_def
    proof (intro conjI allI impI)
      fix j assume j: "j + 1 < length rs'"
      with a last have "j \<noteq> i" "j + 1 < length rs" by auto
      with c a show "length (rs' ! j) = MAX_POLY_DEGREE" by (simp add: cap_inv_def)
    next
      fix j assume j: "j < length rs'"
      show "length (rs' ! j) \<le> MAX_POLY_DEGREE"
      proof (cases "j = i")
        case True
        with a show ?thesis by simp
      next
        case False
        with c a j show ?thesis by (simp add: cap_inv_def)
      qed
    qed
  next
    assume a: "i = length rs \<and> (\<forall>j. j < length rs \<longrightarrow> MAX_POLY_DEGREE \<le> length (rs ! j)) \<and> rs' = rs @ [[s]]"
    have full: "\<forall>j. j < length rs \<longrightarrow> length (rs ! j) = MAX_POLY_DEGREE"
      using a c by (auto simp add: cap_inv_def intro: le_antisym)
    show ?thesis
      unfolding cap_inv_def
    proof (intro conjI allI impI)
      fix j assume j: "j + 1 < length rs'"
      with a have "j < length rs" by simp
      with full a show "length (rs' ! j) = MAX_POLY_DEGREE" by (simp add: nth_append)
    next
      fix j assume j: "j < length rs'"
      show "length (rs' ! j) \<le> MAX_POLY_DEGREE"
      proof (cases "j < length rs")
        case True
        with full a show ?thesis by (simp add: nth_append)
      next
        case False
        with j a have "j = length rs" by simp
        with a show ?thesis by (simp add: MAX_POLY_DEGREE_def)
      qed
    qed
  qed
qed

lemma placed_roots:
  assumes p: "placed (bs, rs, um) s i (bs', rs', um')"
  shows "um' = um(toString s \<mapsto> i) \<and> i < length rs' \<and> length rs \<le> length rs' \<and>
         (\<forall>b. b < length rs' \<longrightarrow>
            set (rs' ! b) = (if b = i then insert s (if b < length rs then set (rs ! b) else {})
                             else set (rs ! b))) \<and>
         (\<forall>b. b < length rs' \<and> b \<noteq> i \<longrightarrow> b < length rs)"
  using p by (auto simp add: placed_def nth_list_update nth_append)

lemma placed_sound:
  assumes p: "placed (bs, rs, um) s i (bs', rs', um')" and m: "map_sound rs um"
  shows "map_sound rs' um'"
proof -
  from placed_roots[OF p] have um': "um' = um(toString s \<mapsto> i)" and i: "i < length rs'"
    and le: "length rs \<le> length rs'"
    and sets: "\<forall>b. b < length rs' \<longrightarrow>
            set (rs' ! b) = (if b = i then insert s (if b < length rs then set (rs ! b) else {})
                             else set (rs ! b))"
    by blast+
  show ?thesis
    unfolding map_sound_def
  proof (intro allI impI)
    fix k b assume kb: "um' k = Some b"
    show "b < length rs' \<and> (\<exists>r. r \<in> set (rs' ! b) \<and> toString r = k)"
    proof (cases "k = toString s")
      case True
      with kb um' have "b = i" by simp
      with i sets True show ?thesis by auto
    next
      case False
      with kb um' have "um k = Some b" by simp
      with m have b: "b < length rs" and ex: "\<exists>r. r \<in> set (rs ! b) \<and> toString r = k"
        by (auto simp add: map_sound_def)
      from b le have b': "b < length rs'" by simp
      with sets b ex show ?thesis by auto
    qed
  qed
qed

lemma placed_complete:
  assumes p: "placed (bs, rs, um) s i (bs', rs', um')" and m: "map_complete rs um"
    and new: "s \<notin> set (concat rs)"
  shows "map_complete rs' um'"
proof -
  from placed_roots[OF p] have um': "um' = um(toString s \<mapsto> i)" and i: "i < length rs'"
    and sets: "\<forall>b. b < length rs' \<longrightarrow>
            set (rs' ! b) = (if b = i then insert s (if b < length rs then set (rs ! b) else {})
                             else set (rs ! b))"
    and other: "\<forall>b. b < length rs' \<and> b \<noteq> i \<longrightarrow> b < length rs"
    by blast+
  show ?thesis
    unfolding map_complete_def
  proof (intro allI impI)
    fix b r assume br: "b < length rs' \<and> r \<in> set (rs' ! b)"
    show "um' (toString r) = Some b"
    proof (cases "r = s")
      case True
      have "b = i"
      proof (rule ccontr)
        assume ne: "b \<noteq> i"
        with br sets other have "s \<in> set (rs ! b)" "b < length rs" using True by auto
        then have "s \<in> set (concat rs)" using nth_mem[of b rs] by auto
        with new show False by simp
      qed
      with True um' show ?thesis by simp
    next
      case False
      then have ne: "toString r \<noteq> toString s" using toString_inj by blast
      from br sets have mem: "r \<in> (if b = i then insert s (if b < length rs then set (rs ! b) else {})
                             else set (rs ! b))" by auto
      have bl: "b < length rs"
      proof (cases "b = i")
        case True
        with mem False show ?thesis by (cases "b < length rs") simp_all
      next
        case False
        with br other show ?thesis by simp
      qed
      from mem False bl have rb: "r \<in> set (rs ! b)" by (simp split: if_splits)
      from m bl rb have "um (toString r) = Some b" by (auto simp add: map_complete_def)
      with ne um' show ?thesis by simp
    qed
  qed
qed

lemma placed_concat_set:
  assumes p: "placed (bs, rs, um) s i (bs', rs', um')"
  shows "set (concat rs') = insert s (set (concat rs))"
proof -
  from p have "(i < length rs \<and> rs' = rs[i := rs ! i @ [s]]) \<or> (rs' = rs @ [[s]])"
    by (auto simp add: placed_def)
  then show ?thesis
  proof
    assume a: "i < length rs \<and> rs' = rs[i := rs ! i @ [s]]"
    define A where "A = take i rs"
    define B where "B = drop (Suc i) rs"
    define x where "x = rs ! i"
    have old: "rs = A @ x # B"
      unfolding A_def B_def x_def using a by (simp add: id_take_nth_drop[symmetric])
    have new: "rs' = A @ (x @ [s]) # B"
      unfolding A_def B_def x_def using a by (simp add: upd_conv_take_nth_drop)
    show ?thesis unfolding old new by auto
  next
    assume "rs' = rs @ [[s]]"
    then show ?thesis by simp
  qed
qed

lemma addSecret_inv:
  assumes inv: "batch_inv st"
  shows "\<exists>st'. addSecret st s = Inr st' \<and> batch_inv st' \<and>
           all_roots st' = insert s (all_roots st) \<and>
           (state_complete st \<and> s \<notin> all_roots st \<longrightarrow> state_complete st')"
proof -
  obtain bs rs um where st: "st = (bs, rs, um)" by (cases st)
  from inv st have len: "length bs = length rs" and c: "cap_inv rs" and m: "map_sound rs um"
    by (simp_all add: batch_inv_def)
  from addSecret_placed[OF len, of um s] obtain i st' where
    r: "addSecret (bs, rs, um) s = Inr st'" and p: "placed (bs, rs, um) s i st'" by blast
  obtain bs' rs' um' where st': "st' = (bs', rs', um')" by (cases st')
  note p' = p[unfolded st']
  have "batch_inv st'"
    using placed_lengths[OF p' len] placed_cap[OF p' c] placed_sound[OF p' m]
    by (simp add: batch_inv_def st')
  moreover have "all_roots st' = insert s (all_roots st)"
    using placed_concat_set[OF p'] by (simp add: all_roots_def st st')
  moreover have "state_complete st \<and> s \<notin> all_roots st \<longrightarrow> state_complete st'"
    using placed_complete[OF p'] by (simp add: state_complete_def all_roots_def st st')
  ultimately show ?thesis using r st by simp
qed

lemma addSecrets_loop_inv:
  "batch_inv st \<Longrightarrow>
   \<exists>st'. addSecrets_loop st ss = Inr st' \<and> batch_inv st' \<and>
         all_roots st' = all_roots st \<union> set ss \<and>
         (state_complete st \<and> distinct ss \<and> set ss \<inter> all_roots st = {} \<longrightarrow> state_complete st')"
proof (induction ss arbitrary: st)
  case Nil
  then show ?case by simp
next
  case (Cons s ss)
  from addSecret_inv[OF Cons.prems, of s] obtain st1 where
    h1: "addSecret st s = Inr st1 \<and> batch_inv st1 \<and>
           all_roots st1 = insert s (all_roots st) \<and>
           (state_complete st \<and> s \<notin> all_roots st \<longrightarrow> state_complete st1)" ..
  from h1 have r1: "addSecret st s = Inr st1" by (rule conjunct1)
  from h1 have inv1: "batch_inv st1" by (rule conjunct1[OF conjunct2])
  from h1 have roots1: "all_roots st1 = insert s (all_roots st)"
    by (rule conjunct1[OF conjunct2[OF conjunct2]])
  from h1 have comp1: "state_complete st \<and> s \<notin> all_roots st \<longrightarrow> state_complete st1"
    by (rule conjunct2[OF conjunct2[OF conjunct2]])
  from Cons.IH[OF inv1] obtain st' where
    r: "addSecrets_loop st1 ss = Inr st'" and inv': "batch_inv st'"
    and roots': "all_roots st' = all_roots st1 \<union> set ss"
    and comp': "state_complete st1 \<and> distinct ss \<and> set ss \<inter> all_roots st1 = {} \<longrightarrow> state_complete st'"
    by blast
  have a: "addSecrets_loop st (s # ss) = Inr st'" using r1 r by simp
  have b: "all_roots st' = all_roots st \<union> set (s # ss)" using roots1 roots' by auto
  have c: "state_complete st \<and> distinct (s # ss) \<and> set (s # ss) \<inter> all_roots st = {} \<longrightarrow> state_complete st'"
  proof
    assume h: "state_complete st \<and> distinct (s # ss) \<and> set (s # ss) \<inter> all_roots st = {}"
    then have "state_complete st1" using comp1 by auto
    moreover have "distinct ss" using h by simp
    moreover have "set ss \<inter> all_roots st1 = {}" using h roots1 by auto
    ultimately show "state_complete st'" using comp' by simp
  qed
  show ?case
  proof (intro exI[of _ st'] conjI)
    show "addSecrets_loop st (s # ss) = Inr st'" by (rule a)
    show "batch_inv st'" by (rule inv')
    show "all_roots st' = all_roots st \<union> set (s # ss)" by (rule b)
    show "state_complete st \<and> distinct (s # ss) \<and> set (s # ss) \<inter> all_roots st = {} \<longrightarrow> state_complete st'"
      by (rule c)
  qed
qed

lemma addSecrets_calls_inv:
  "batch_inv st \<Longrightarrow>
   \<exists>st'. addSecrets_calls st calls = Inr st' \<and> batch_inv st' \<and>
         all_roots st' = all_roots st \<union> set (concat calls) \<and>
         (state_complete st \<and> distinct (concat calls) \<and> set (concat calls) \<inter> all_roots st = {}
            \<longrightarrow> state_complete st')"
proof (induction calls arbitrary: st)
  case Nil
  then show ?case by simp
next
  case (Cons ss calls)
  obtain bs rs um where st: "st = (bs, rs, um)" by (cases st)
  from addSecrets_loop_inv[OF Cons.prems, of ss] obtain st1 where
    r1: "addSecrets_loop st ss = Inr st1" and inv1: "batch_inv st1"
    and roots1: "all_roots st1 = all_roots st \<union> set ss"
    and comp1: "state_complete st \<and> distinct ss \<and> set ss \<inter> all_roots st = {} \<longrightarrow> state_complete st1"
    by blast
  from Cons.IH[OF inv1] obtain st' where
    r: "addSecrets_calls st1 calls = Inr st'" and inv': "batch_inv st'"
    and roots': "all_roots st' = all_roots st1 \<union> set (concat calls)"
    and comp': "state_complete st1 \<and> distinct (concat calls) \<and> set (concat calls) \<inter> all_roots st1 = {}
            \<longrightarrow> state_complete st'"
    by blast
  have a: "addSecrets_calls st (ss # calls) = Inr st'"
    using r1 r by (simp add: st addSecretsToBatches_def)
  have b: "all_roots st' = all_roots st \<union> set (concat (ss # calls))" using roots1 roots' by auto
  have c: "state_complete st \<and> distinct (concat (ss # calls)) \<and>
           set (concat (ss # calls)) \<inter> all_roots st = {} \<longrightarrow> state_complete st'"
  proof
    assume h: "state_complete st \<and> distinct (concat (ss # calls)) \<and>
           set (concat (ss # calls)) \<inter> all_roots st = {}"
    then have d: "distinct ss" "distinct (concat calls)" "set ss \<inter> set (concat calls) = {}"
      by simp_all
    have "state_complete st1" using h d comp1 by auto
    moreover have "set (concat calls) \<inter> all_roots st1 = {}" using h d roots1 by auto
    ultimately show "state_complete st'" using comp' d by simp
  qed
  show ?case
  proof (intro exI[of _ st'] conjI)
    show "addSecrets_calls st (ss # calls) = Inr st'" by (rule a)
    show "batch_inv st'" by (rule inv')
    show "all_roots st' = all_roots st \<union> set (concat (ss # calls))" by (rule b)
    show "state_complete st \<and> distinct (concat (ss # calls)) \<and>
           set (concat (ss # calls)) \<inter> all_roots st = {} \<longrightarrow> state_complete st'"
      by (rule c)
  qed
qed

lemma empty_batches_inv: "batch_inv empty_batches \<and> state_complete empty_batches \<and> all_roots empty_batches = {}"
  by (simp add: batch_inv_def state_complete_def all_roots_def empty_batches_def cap_inv_def
        map_sound_def map_complete_def)

lemma addSecrets_loop_append:
  "addSecrets_loop st (xs @ ys) =
     (case addSecrets_loop st xs of Inl e \<Rightarrow> Inl e | Inr st' \<Rightarrow> addSecrets_loop st' ys)"
  by (induction xs arbitrary: st) (simp_all split: sum.splits)

lemma addSecret_first:
  "addSecret ([], [], um) x = Inr ([addRoot [1] x], [[x]], um(toString x \<mapsto> 0))"
  by (simp add: addSecret_def fit_existing.simps Let_def)

lemma addSecret_room:
  "length ys < MAX_POLY_DEGREE \<Longrightarrow>
   addSecret ([b], [ys], um) x = Inr ([addRoot b x], [ys @ [x]], um(toString x \<mapsto> 0))"
  by (simp add: addSecret_def fit_existing.simps)

lemma addSecret_full:
  "length ys = MAX_POLY_DEGREE \<Longrightarrow>
   addSecret ([b], [ys], um) x = Inr ([b, addRoot [1] x], [ys, [x]], um(toString x \<mapsto> 1))"
  by (simp add: addSecret_def fit_existing.simps[of 0] fit_existing.simps[of "Suc 0"] Let_def)

lemma addSecrets_loop_same:
  "m + n \<le> MAX_POLY_DEGREE \<Longrightarrow> um (toString x) = Some 0 \<Longrightarrow>
   \<exists>b'. addSecrets_loop ([b], [replicate m x], um) (replicate n x) =
         Inr ([b'], [replicate (m + n) x], um)"
proof (induction n arbitrary: m b)
  case 0
  show ?case by simp
next
  case (Suc n)
  have room: "length (replicate m x) < MAX_POLY_DEGREE" using Suc.prems(1) by simp
  have um: "um(toString x \<mapsto> 0) = um" using Suc.prems(2) by (rule map_upd_triv)
  have "Suc m + n \<le> MAX_POLY_DEGREE" using Suc.prems(1) by simp
  from Suc.IH[OF this Suc.prems(2), of "addRoot b x"] obtain b' where
    "addSecrets_loop ([addRoot b x], [replicate (Suc m) x], um) (replicate n x) =
         Inr ([b'], [replicate (Suc m + n) x], um)" by blast
  then show ?case
    using addSecret_room[OF room, of b um x]
    by (simp add: um replicate_append_same)
qed

lemma same_secret_129:
  "\<exists>b0 b1. addSecrets_calls empty_batches [replicate 129 x] =
     Inr ([b0, b1], [replicate 128 x, [x]], [toString x \<mapsto> 1])"
proof -
  let ?um = "[toString x \<mapsto> (0::nat)]"
  have split: "replicate 129 x = x # (replicate 127 x @ [x])"
  proof -
    have "replicate 129 x = replicate (Suc (127 + 1)) x" by simp
    also have "\<dots> = x # replicate (127 + 1) x" by (simp only: replicate_Suc)
    also have "\<dots> = x # (replicate 127 x @ replicate 1 x)" by (simp only: replicate_add)
    finally show ?thesis by simp
  qed
  have "1 + 127 \<le> MAX_POLY_DEGREE" by (simp add: MAX_POLY_DEGREE_def)
  from addSecrets_loop_same[OF this, of ?um x "addRoot [1] x"] obtain b0 where
    mid: "addSecrets_loop ([addRoot [1] x], [replicate 1 x], ?um) (replicate 127 x) =
            Inr ([b0], [replicate (1 + 127) x], ?um)" by auto
  have full: "length (replicate (1 + 127) x) = MAX_POLY_DEGREE" by (simp add: MAX_POLY_DEGREE_def)
  have last: "addSecret ([b0], [replicate (1 + 127) x], ?um) x =
        Inr ([b0, addRoot [1] x], [replicate (1 + 127) x, [x]], ?um(toString x \<mapsto> 1))"
    by (rule addSecret_full[OF full])
  have "addSecrets_loop ([], [], Map.empty) (x # (replicate 127 x @ [x])) =
        Inr ([b0, addRoot [1] x], [replicate 128 x, [x]], [toString x \<mapsto> 1])"
    using mid last by (simp add: addSecret_first addSecrets_loop_append)
  then show ?thesis
    unfolding split by (simp add: empty_batches_def addSecretsToBatches_def)
qed

lemma small_run:
  "\<exists>batches userMap. addSecrets_calls empty_batches [[1, 2], [3]] = Inr (batches, [[1, 2, 3]], userMap)"
  by (simp add: empty_batches_def addSecretsToBatches_def addSecret_def fit_existing.simps
        MAX_POLY_DEGREE_def Let_def)

section \<open>The batch manager: the claims\<close>

text \<open>
  Claim C6, as the spec states it, has every listed root mapped to the batch that lists
  it. It fails when a root is inserted again after its batch has filled up: with the
  secret \<open>0\<close> inserted 129 times from the empty state, the first batch lists \<open>0\<close>
  128 times, the second lists it once, and the one map entry for \<open>0\<close> was overwritten
  with batch index 1.
\<close>

theorem addSecrets_duplicate_root_counterexample:
  "(case addSecrets_calls empty_batches [replicate 129 0] of
      Inl e \<Rightarrow> False
    | Inr (batches, batchRoots, userMap) \<Rightarrow>
        batchRoots = [replicate 128 0, [0]] \<and>
        0 \<in> set (batchRoots ! 0) \<and> userMap (toString 0) = Some 1 \<and>
        userMap (toString 0) \<noteq> Some 0)"
proof -
  from same_secret_129[of 0] obtain b0 b1 where
    "addSecrets_calls empty_batches [replicate 129 0] =
     Inr ([b0, b1], [replicate 128 0, [0]], [toString 0 \<mapsto> 1])" by blast
  then show ?thesis by simp
qed

text \<open>
  Claim C6, amended. For every sequence of calls of \<open>addSecretsToBatches\<close> from the
  empty state, each fed the result of the one before: every call succeeds; every batch
  except at most the last holds exactly \<open>MAX_POLY_DEGREE\<close> roots; each root that the map
  maps to a batch is in the root list of that batch; and, when the inserted roots are
  pairwise distinct, every listed root is mapped to the batch that lists it.
\<close>

theorem addSecrets_batch_invariant:
  "\<exists>batches batchRoots userMap.
     addSecrets_calls empty_batches calls = Inr (batches, batchRoots, userMap) \<and>
     (\<forall>i. i + 1 < length batchRoots \<longrightarrow> length (batchRoots ! i) = MAX_POLY_DEGREE) \<and>
     (\<forall>r b. userMap (toString r) = Some b \<longrightarrow> b < length batchRoots \<and> r \<in> set (batchRoots ! b)) \<and>
     (distinct (concat calls) \<longrightarrow>
        (\<forall>b r. b < length batchRoots \<and> r \<in> set (batchRoots ! b) \<longrightarrow> userMap (toString r) = Some b))"
proof -
  from empty_batches_inv have e: "batch_inv empty_batches" "state_complete empty_batches"
    "all_roots empty_batches = {}" by simp_all
  from addSecrets_calls_inv[OF e(1), of calls] obtain st' where
    r: "addSecrets_calls empty_batches calls = Inr st'" and inv: "batch_inv st'"
    and comp: "distinct (concat calls) \<longrightarrow> state_complete st'"
    using e by auto
  obtain bs rs um where st': "st' = (bs, rs, um)" by (cases st')
  from inv st' have c: "cap_inv rs" and m: "map_sound rs um" by (simp_all add: batch_inv_def)
  have 1: "\<forall>i. i + 1 < length rs \<longrightarrow> length (rs ! i) = MAX_POLY_DEGREE"
    using c by (simp add: cap_inv_def)
  have 2: "\<forall>r b. um (toString r) = Some b \<longrightarrow> b < length rs \<and> r \<in> set (rs ! b)"
  proof (intro allI impI)
    fix r b assume "um (toString r) = Some b"
    with m obtain r' where b: "b < length rs" and r': "r' \<in> set (rs ! b)" "toString r' = toString r"
      by (auto simp add: map_sound_def)
    from toString_inj[OF r'(2)] r'(1) b show "b < length rs \<and> r \<in> set (rs ! b)" by simp
  qed
  have 3: "distinct (concat calls) \<longrightarrow>
        (\<forall>b r. b < length rs \<and> r \<in> set (rs ! b) \<longrightarrow> um (toString r) = Some b)"
    using comp by (simp add: state_complete_def st' map_complete_def)
  show ?thesis
  proof (rule exI[of _ bs], rule exI[of _ rs], rule exI[of _ um], intro conjI)
    show "addSecrets_calls empty_batches calls = Inr (bs, rs, um)" using r st' by simp
    show "\<forall>i. i + 1 < length rs \<longrightarrow> length (rs ! i) = MAX_POLY_DEGREE" by (rule 1)
    show "\<forall>r b. um (toString r) = Some b \<longrightarrow> b < length rs \<and> r \<in> set (rs ! b)" by (rule 2)
    show "distinct (concat calls) \<longrightarrow>
        (\<forall>b r. b < length rs \<and> r \<in> set (rs ! b) \<longrightarrow> um (toString r) = Some b)" by (rule 3)
  qed
qed

theorem addSecrets_batch_invariant_witness:
  "distinct (concat [[1, 2], [3 :: int]]) \<and>
   (\<exists>batches userMap.
      addSecrets_calls empty_batches [[1, 2], [3]] = Inr (batches, [[1, 2, 3]], userMap) \<and>
      userMap (toString 1) = Some 0 \<and> userMap (toString 2) = Some 0 \<and>
      userMap (toString 3) = Some 0)"
proof -
  have d: "distinct (concat [[1, 2], [3 :: int]])" by simp
  from small_run obtain bs0 um0 where
    run: "addSecrets_calls empty_batches [[1, 2], [3]] = Inr (bs0, [[1, 2, 3]], um0)" by blast
  from addSecrets_batch_invariant[of "[[1, 2], [3]]"] d run
  have "\<forall>b r. b < length [[1, 2, 3 :: int]] \<and> r \<in> set ([[1, 2, 3]] ! b) \<longrightarrow> um0 (toString r) = Some b"
    by simp
  then have "um0 (toString 1) = Some 0 \<and> um0 (toString 2) = Some 0 \<and> um0 (toString 3) = Some 0"
    by simp
  with d run show ?thesis by blast
qed

section \<open>The batch manager on the store: what each statement may write\<close>

lemma push_Some:
  "push h a v = Some h' \<Longrightarrow> a < length h \<and> (\<exists>vs. h ! a = ArrayObj vs \<and> h' = h[a := ArrayObj (vs @ [v])])"
  by (auto simp add: push_def read_array_def split: if_splits js_object.splits)

lemma map_set_Some:
  "map_set h a k v = Some h' \<Longrightarrow> a < length h \<and> (\<exists>m. h ! a = MapObj m \<and> h' = h[a := MapObj (m(k \<mapsto> v))])"
  by (auto simp add: map_set_def split: if_splits js_object.splits)

lemma addRoot_st_Some:
  "addRoot_st h p s = Some (h', a) \<Longrightarrow> a = length h \<and> (\<exists>obj. h' = h @ [obj])"
  by (auto simp add: addRoot_st_def alloc_def split: option.splits)

lemma read_array_Some:
  "read_array h a = Some vs \<Longrightarrow> a < length h \<and> h ! a = ArrayObj vs"
  by (auto simp add: read_array_def split: if_splits js_object.splits)

lemma eff_refl: "fresh n h cb cr \<Longrightarrow> n \<le> length h \<Longrightarrow> um < n \<Longrightarrow> eff n um cb cr s h h"
  by (simp add: eff_def pres_def map_kept_def)

lemma eff_upd:
  assumes e: "eff n um cb cr s h h1" and a: "n \<le> a" "a \<noteq> cr" and arr: "a = cb \<longrightarrow> (\<exists>ps. obj = ArrayObj ps)"
  shows "eff n um cb cr s h (h1[a := obj])"
proof -
  from e have p: "pres n um h h1" and f: "fresh n h1 cb cr" and m: "map_kept um s h h1"
    and n: "n \<le> length h" and um: "um < n" by (simp_all add: eff_def)
  have uma: "um \<noteq> a" using um a by simp
  have "pres n um h (h1[a := obj])" using p a by (auto simp add: pres_def)
  moreover have "fresh n (h1[a := obj]) cb cr"
  proof (cases "a < length h1")
    case True
    then show ?thesis using f a arr by (auto simp add: fresh_def nth_list_update)
  next
    case False
    then show ?thesis using f by (simp add: list_update_beyond)
  qed
  moreover have "map_kept um s h (h1[a := obj])"
    using m uma by (simp add: map_kept_def)
  ultimately show ?thesis using n um by (simp add: eff_def)
qed

lemma eff_app:
  assumes e: "eff n um cb cr s h h1"
  shows "eff n um cb cr s h (h1 @ [obj])"
proof -
  from e have p: "pres n um h h1" and f: "fresh n h1 cb cr" and m: "map_kept um s h h1"
    and n: "n \<le> length h" and um: "um < n" by (simp_all add: eff_def)
  have len: "n \<le> length h1" using p n by (simp add: pres_def)
  have "pres n um h (h1 @ [obj])" using p len by (auto simp add: pres_def nth_append)
  moreover have "fresh n (h1 @ [obj]) cb cr"
    using f by (auto simp add: fresh_def nth_append)
  moreover have "map_kept um s h (h1 @ [obj])"
    using m um len by (simp add: map_kept_def nth_append)
  ultimately show ?thesis using n um by (simp add: eff_def)
qed

lemma eff_push_cr:
  assumes e: "eff n um cb cr s h h1" and r: "h1 ! cr = ArrayObj refs"
    and a: "n \<le> a" "a \<noteq> cb" "a \<noteq> cr"
  shows "eff n um cb cr s h (h1[cr := ArrayObj (refs @ [VRef a])])"
proof -
  from e have p: "pres n um h h1" and f: "fresh n h1 cb cr" and m: "map_kept um s h h1"
    and n: "n \<le> length h" and um: "um < n" by (simp_all add: eff_def)
  have umc: "um \<noteq> cr" using um f by (auto simp add: fresh_def)
  have "pres n um h (h1[cr := ArrayObj (refs @ [VRef a])])"
    using p f by (auto simp add: pres_def fresh_def)
  moreover have "fresh n (h1[cr := ArrayObj (refs @ [VRef a])]) cb cr"
    using f r a by (auto simp add: fresh_def nth_list_update)
  moreover have "map_kept um s h (h1[cr := ArrayObj (refs @ [VRef a])])"
    using m umc by (simp add: map_kept_def)
  ultimately show ?thesis using n um by (simp add: eff_def)
qed

lemma eff_map_set:
  assumes e: "eff n um cb cr s h h1" and r: "h1 ! um = MapObj m1"
  shows "eff n um cb cr s h (h1[um := MapObj (m1(toString s \<mapsto> i))]) \<and>
         map_put um s h (h1[um := MapObj (m1(toString s \<mapsto> i))])"
proof -
  from e have p: "pres n um h h1" and f: "fresh n h1 cb cr" and m: "map_kept um s h h1"
    and n: "n \<le> length h" and um: "um < n" by (simp_all add: eff_def)
  have len: "um < length h1" using p n um by (simp add: pres_def)
  have umc: "um \<noteq> cr" "um \<noteq> cb" using um f by (auto simp add: fresh_def)
  have put: "map_put um s h (h1[um := MapObj (m1(toString s \<mapsto> i))])"
    unfolding map_put_def
  proof (intro allI impI)
    fix m0 assume "h ! um = MapObj m0"
    with m have "h1 ! um = MapObj m0 \<or> (\<exists>j. h1 ! um = MapObj (m0(toString s \<mapsto> j)))"
      by (simp add: map_kept_def)
    with r have "m1 = m0 \<or> (\<exists>j. m1 = m0(toString s \<mapsto> j))" by auto
    then have "m1(toString s \<mapsto> i) = m0(toString s \<mapsto> i)" by auto
    then show "\<exists>ia. h1[um := MapObj (m1(toString s \<mapsto> i))] ! um = MapObj (m0(toString s \<mapsto> ia))"
      using len by auto
  qed
  have "pres n um h (h1[um := MapObj (m1(toString s \<mapsto> i))])"
    using p by (auto simp add: pres_def)
  moreover have "fresh n (h1[um := MapObj (m1(toString s \<mapsto> i))]) cb cr"
    using f umc by (auto simp add: fresh_def)
  moreover have "map_kept um s h (h1[um := MapObj (m1(toString s \<mapsto> i))])"
    using put by (auto simp add: map_kept_def map_put_def)
  ultimately show ?thesis using n um put by (simp add: eff_def)
qed

lemma insert_at_eff:
  assumes e: "eff n um cb cr s h0 h"
    and ri: "n \<le> ri" "ri \<noteq> cb" "ri \<noteq> cr"
    and run: "insert_at i ri cb um s h = (h', r)"
  shows "eff n um cb cr s h0 h' \<and> (r = Inr True \<longrightarrow> map_put um s h0 h') \<and> r \<noteq> Inr False"
proof (cases "push h ri (VBigInt s)")
  case None
  with run e show ?thesis by (auto simp add: insert_at_def)
next
  case (Some h1)
  from push_Some[OF Some] obtain vs where h1: "h1 = h[ri := ArrayObj (vs @ [VBigInt s])]" by blast
  have e1: "eff n um cb cr s h0 h1" unfolding h1 using e ri by (intro eff_upd) simp_all
  show ?thesis
  proof (cases "read_array h1 cb")
    case None
    with run Some e1 show ?thesis by (auto simp add: insert_at_def)
  next
    case polys: (Some polys)
    show ?thesis
    proof (cases "i < length polys")
      case False
      with run Some polys e1 show ?thesis by (auto simp add: insert_at_def)
    next
      case True
      show ?thesis
      proof (cases "polys ! i")
        case (VBigInt x)
        with run Some polys True e1 show ?thesis by (auto simp add: insert_at_def)
      next
        case (VRef oldPoly)
        show ?thesis
        proof (cases "addRoot_st h1 oldPoly s")
          case None
          with run Some polys True VRef e1 show ?thesis by (auto simp add: insert_at_def)
        next
          case ar: (Some p)
          obtain h2 newPoly where p: "p = (h2, newPoly)" by (cases p)
          from addRoot_st_Some[OF ar[unfolded p]] obtain obj where
            h2: "h2 = h1 @ [obj]" and np: "newPoly = length h1" by blast
          have e2: "eff n um cb cr s h0 h2" unfolding h2 using e1 by (rule eff_app)
          show ?thesis
          proof (cases "read_array h2 cb")
            case None
            with run Some polys True VRef ar p e2 show ?thesis by (auto simp add: insert_at_def)
          next
            case polys2: (Some polys2)
            let ?h3 = "h2[cb := ArrayObj (polys2[i := VRef newPoly])]"
            from e2 have f2: "fresh n h2 cb cr" by (simp add: eff_def)
            then have cb: "n \<le> cb" "cb \<noteq> cr" by (simp_all add: fresh_def)
            have e3: "eff n um cb cr s h0 ?h3" using e2 cb by (intro eff_upd) simp_all
            show ?thesis
            proof (cases "map_set ?h3 um (toString s) i")
              case None
              with run Some polys True VRef ar p polys2 e3 show ?thesis by (auto simp add: insert_at_def)
            next
              case ms: (Some h4)
              from map_set_Some[OF ms] obtain m1 where
                m1: "?h3 ! um = MapObj m1" and h4: "h4 = ?h3[um := MapObj (m1(toString s \<mapsto> i))]"
                by blast
              from eff_map_set[OF e3 m1, of i] have "eff n um cb cr s h0 h4 \<and> map_put um s h0 h4"
                unfolding h4 .
              moreover have "h' = h4 \<and> r = Inr True"
                using run Some polys True VRef ar p polys2 ms by (auto simp add: insert_at_def)
              ultimately show ?thesis by simp
            qed
          qed
        qed
      qed
    qed
  qed
qed

lemma fit_existing_st_eff:
  "eff n um cb cr s h0 h \<Longrightarrow> fit_existing_st i cb cr um s h = (h', r) \<Longrightarrow>
   eff n um cb cr s h0 h' \<and> (r = Inr True \<longrightarrow> map_put um s h0 h') \<and> (r = Inr False \<longrightarrow> h' = h)"
proof (induction i cb cr um s h rule: fit_existing_st.induct)
  case (1 i cb cr um secret h)
  note e = "1.prems"(1) and run = "1.prems"(2)
  show ?case
  proof (cases "read_array h cr")
    case None
    with run e show ?thesis by (subst (asm) fit_existing_st.simps) auto
  next
    case roots: (Some roots)
    show ?thesis
    proof (cases "i < length roots")
      case False
      with run roots e show ?thesis by (subst (asm) fit_existing_st.simps) auto
    next
      case True
      show ?thesis
      proof (cases "roots ! i")
        case (VBigInt x)
        with run roots True e show ?thesis by (subst (asm) fit_existing_st.simps) auto
      next
        case (VRef ri)
        show ?thesis
        proof (cases "read_array h ri")
          case None
          with run roots True VRef e show ?thesis by (subst (asm) fit_existing_st.simps) auto
        next
          case rl: (Some rl)
          from e have f: "fresh n h cb cr" by (simp add: eff_def)
          from read_array_Some[OF roots] have hr: "h ! cr = ArrayObj roots" by simp
          have mem: "VRef ri \<in> set roots" using True VRef by (metis nth_mem)
          with f hr have ri: "n \<le> ri" "ri \<noteq> cb" "ri \<noteq> cr" by (auto simp add: fresh_def)
          show ?thesis
          proof (cases "length rl < MAX_POLY_DEGREE")
            case room: True
            have "insert_at i ri cb um secret h = (h', r)"
              using run roots True VRef rl room by (subst (asm) fit_existing_st.simps) auto
            from insert_at_eff[OF e ri this] show ?thesis by simp
          next
            case full: False
            have next_run: "fit_existing_st (i + 1) cb cr um secret h = (h', r)"
              using run roots True VRef rl full by (subst (asm) fit_existing_st.simps) auto
            from "1.IH"[OF roots True VRef rl full e next_run] show ?thesis .
          qed
        qed
      qed
    qed
  qed
qed

lemma open_batch_eff:
  assumes e: "eff n um cb cr s h0 h" and run: "open_batch cb cr um s h = (h', r)"
  shows "eff n um cb cr s h0 h' \<and> (r = Inr () \<longrightarrow> map_put um s h0 h')"
proof -
  let ?h2 = "h @ [ArrayObj [VBigInt s]]"
  let ?h3 = "?h2 @ [ArrayObj [VBigInt 1]]"
  from e have f: "fresh n h cb cr" and nh: "n \<le> length h0" and p: "pres n um h0 h"
    by (simp_all add: eff_def)
  from p nh have nlen: "n \<le> length h" by (simp add: pres_def)
  from f have cbl: "cb < length h" "cr < length h" by (simp_all add: fresh_def)
  have e3: "eff n um cb cr s h0 ?h3" using e by (intro eff_app)
  show ?thesis
  proof (cases "addRoot_st ?h3 (length ?h2) s")
    case None
    with run e3 show ?thesis by (auto simp add: open_batch_def alloc_def)
  next
    case ar: (Some p)
    obtain h4 newBatchPoly where p: "p = (h4, newBatchPoly)" by (cases p)
    from addRoot_st_Some[OF ar[unfolded p]] obtain obj where
      h4: "h4 = ?h3 @ [obj]" and np: "newBatchPoly = length ?h3" by blast
    have e4: "eff n um cb cr s h0 h4" unfolding h4 using e3 by (rule eff_app)
    show ?thesis
    proof (cases "push h4 cr (VRef (length h))")
      case None
      with run ar p e4 show ?thesis by (auto simp add: open_batch_def alloc_def)
    next
      case p5: (Some h5)
      from push_Some[OF p5] obtain refs where
        refs: "h4 ! cr = ArrayObj refs" and h5: "h5 = h4[cr := ArrayObj (refs @ [VRef (length h)])]"
        by blast
      have e5: "eff n um cb cr s h0 h5"
        unfolding h5 using e4 refs nlen cbl by (intro eff_push_cr) simp_all
      show ?thesis
      proof (cases "push h5 cb (VRef newBatchPoly)")
        case None
        with run ar p p5 e5 show ?thesis by (auto simp add: open_batch_def alloc_def)
      next
        case p6: (Some h6)
        from push_Some[OF p6] obtain ps where
          h6: "h6 = h5[cb := ArrayObj (ps @ [VRef newBatchPoly])]" by blast
        from e5 have "fresh n h5 cb cr" by (simp add: eff_def)
        then have cb: "n \<le> cb" "cb \<noteq> cr" by (simp_all add: fresh_def)
        have e6: "eff n um cb cr s h0 h6" unfolding h6 using e5 cb by (intro eff_upd) simp_all
        show ?thesis
        proof (cases "read_array h6 cr")
          case None
          with run ar p p5 p6 e6 show ?thesis by (auto simp add: open_batch_def alloc_def)
        next
          case roots: (Some roots)
          show ?thesis
          proof (cases "map_set h6 um (toString s) (length roots - 1)")
            case None
            with run ar p p5 p6 roots e6 show ?thesis by (auto simp add: open_batch_def alloc_def)
          next
            case ms: (Some h7)
            from map_set_Some[OF ms] obtain m1 where
              m1: "h6 ! um = MapObj m1"
              and h7: "h7 = h6[um := MapObj (m1(toString s \<mapsto> length roots - 1))]"
              by blast
            from eff_map_set[OF e6 m1, of "length roots - 1"]
            have "eff n um cb cr s h0 h7 \<and> map_put um s h0 h7" unfolding h7 .
            moreover have "h' = h7 \<and> r = Inr ()"
              using run ar p p5 p6 roots ms by (auto simp add: open_batch_def alloc_def)
            ultimately show ?thesis by simp
          qed
        qed
      qed
    qed
  qed
qed

lemma addSecret_st_eff:
  assumes f: "fresh n h cb cr" and n: "n \<le> length h" and um: "um < n"
    and run: "addSecret_st cb cr um s h = (h', r)"
  shows "eff n um cb cr s h h' \<and> (r = Inr () \<longrightarrow> map_put um s h h')"
proof -
  have e: "eff n um cb cr s h h" using f n um by (rule eff_refl)
  obtain h1 r1 where fit: "fit_existing_st 0 cb cr um s h = (h1, r1)"
    by (cases "fit_existing_st 0 cb cr um s h")
  from fit_existing_st_eff[OF e fit] have e1: "eff n um cb cr s h h1"
    and put: "r1 = Inr True \<longrightarrow> map_put um s h h1" and same: "r1 = Inr False \<longrightarrow> h1 = h"
    by simp_all
  show ?thesis
  proof (cases r1)
    case (Inl err)
    with run fit e1 show ?thesis by (auto simp add: addSecret_st_def)
  next
    case (Inr b)
    show ?thesis
    proof (cases b)
      case True
      with run fit Inr e1 put show ?thesis by (auto simp add: addSecret_st_def)
    next
      case False
      with run fit Inr have "open_batch cb cr um s h1 = (h', r)" by (auto simp add: addSecret_st_def)
      from open_batch_eff[OF e1 this] show ?thesis .
    qed
  qed
qed

lemma pres_trans: "pres n um h h1 \<Longrightarrow> pres n um h1 h2 \<Longrightarrow> pres n um h h2"
  by (auto simp add: pres_def)

lemma addSecrets_loop_st_eff:
  "fresh n h cb cr \<Longrightarrow> n \<le> length h \<Longrightarrow> um < n \<Longrightarrow> h ! um = MapObj m \<Longrightarrow>
   addSecrets_loop_st cb cr um ss h = (h', r) \<Longrightarrow>
   pres n um h h' \<and> fresh n h' cb cr \<and>
   (\<exists>m'. h' ! um = MapObj m' \<and>
         (\<forall>k. k \<notin> toString ` set ss \<longrightarrow> m' k = m k) \<and>
         (r = Inr () \<longrightarrow> (\<forall>s. s \<in> set ss \<longrightarrow> m' (toString s) \<noteq> None)))"
proof (induction ss arbitrary: h m)
  case Nil
  then show ?case by (auto simp add: pres_def)
next
  case (Cons s ss)
  obtain h1 r1 where step: "addSecret_st cb cr um s h = (h1, r1)"
    by (cases "addSecret_st cb cr um s h")
  from addSecret_st_eff[OF Cons.prems(1,2,3) step] have e: "eff n um cb cr s h h1"
    and put: "r1 = Inr () \<longrightarrow> map_put um s h h1" by simp_all
  from e have p1: "pres n um h h1" and f1: "fresh n h1 cb cr" and k1: "map_kept um s h h1"
    by (simp_all add: eff_def)
  from k1 Cons.prems(4) obtain m1 where m1: "h1 ! um = MapObj m1"
    and m1_cases: "m1 = m \<or> (\<exists>i. m1 = m(toString s \<mapsto> i))"
    by (auto simp add: map_kept_def)
  have m1_other: "\<forall>k. k \<noteq> toString s \<longrightarrow> m1 k = m k" using m1_cases by auto
  show ?case
  proof (cases r1)
    case (Inl err)
    with Cons.prems(5) step have "h' = h1" "r = Inl err" by simp_all
    with p1 f1 m1 m1_other show ?thesis by auto
  next
    case (Inr u)
    with Cons.prems(5) step have rest: "addSecrets_loop_st cb cr um ss h1 = (h', r)" by simp
    have n1: "n \<le> length h1" using p1 Cons.prems(2) by (simp add: pres_def)
    from Cons.IH[OF f1 n1 Cons.prems(3) m1 rest] obtain m' where
      p': "pres n um h1 h'" and f': "fresh n h' cb cr" and m': "h' ! um = MapObj m'"
      and other: "\<forall>k. k \<notin> toString ` set ss \<longrightarrow> m' k = m1 k"
      and allset: "r = Inr () \<longrightarrow> (\<forall>s. s \<in> set ss \<longrightarrow> m' (toString s) \<noteq> None)"
      by blast
    from put Inr m1 Cons.prems(4) obtain i where m1_put: "m1 = m(toString s \<mapsto> i)"
      by (auto simp add: map_put_def)
    have a: "\<forall>k. k \<notin> toString ` set (s # ss) \<longrightarrow> m' k = m k"
      using other m1_other by auto
    have b: "r = Inr () \<longrightarrow> (\<forall>x. x \<in> set (s # ss) \<longrightarrow> m' (toString x) \<noteq> None)"
    proof (intro impI allI)
      fix x assume r: "r = Inr ()" and x: "x \<in> set (s # ss)"
      show "m' (toString x) \<noteq> None"
      proof (cases "toString x \<in> toString ` set ss")
        case True
        then obtain y where "y \<in> set ss" "toString y = toString x" by auto
        with allset r show ?thesis by metis
      next
        case False
        with x have "x = s" by auto
        with False other m1_put show ?thesis by simp
      qed
    qed
    from pres_trans[OF p1 p'] f' m' a b show ?thesis by blast
  qed
qed

lemma copy_each_eff:
  "copy_each h vs = (h', res) \<Longrightarrow>
   (\<exists>ext. h' = h @ ext) \<and>
   (\<forall>cs. res = Some cs \<longrightarrow> length cs = length vs \<and>
      (\<forall>v. v \<in> set cs \<longrightarrow> (\<exists>a. v = VRef a \<and> length h \<le> a \<and> a < length h')))"
proof (induction h vs arbitrary: h' res rule: copy_each.induct)
  case (1 h)
  then show ?case by auto
next
  case (2 h x rs)
  then show ?case by auto
next
  case (3 h a rs)
  show ?case
  proof (cases "read_array h a")
    case None
    with "3.prems" show ?thesis by auto
  next
    case (Some vs)
    obtain h2 res2 where rec: "copy_each (h @ [ArrayObj vs]) rs = (h2, res2)"
      by (cases "copy_each (h @ [ArrayObj vs]) rs")
    from "3.IH"[OF Some _ rec, of "length h"] obtain ext where
      ext: "h2 = (h @ [ArrayObj vs]) @ ext"
      and cs: "\<forall>cs. res2 = Some cs \<longrightarrow> length cs = length rs \<and>
         (\<forall>v. v \<in> set cs \<longrightarrow> (\<exists>a. v = VRef a \<and> length (h @ [ArrayObj vs]) \<le> a \<and> a < length h2))"
      by (auto simp add: alloc_def)
    have h2: "h2 = h @ (ArrayObj vs # ext)" using ext by simp
    show ?thesis
    proof (cases res2)
      case None
      with "3.prems" Some rec h2 show ?thesis by (auto simp add: alloc_def)
    next
      case res: (Some cs2)
      with "3.prems" Some rec have out: "h' = h2" "res = Some (VRef (length h) # cs2)"
        by (auto simp add: alloc_def)
      from cs res have l: "length cs2 = length rs"
        and fr: "\<forall>v. v \<in> set cs2 \<longrightarrow> (\<exists>a. v = VRef a \<and> length (h @ [ArrayObj vs]) \<le> a \<and> a < length h2)"
        by simp_all
      have "\<forall>v. v \<in> set (VRef (length h) # cs2) \<longrightarrow> (\<exists>a. v = VRef a \<and> length h \<le> a \<and> a < length h2)"
      proof (intro allI impI)
        fix v assume "v \<in> set (VRef (length h) # cs2)"
        then have "v = VRef (length h) \<or> v \<in> set cs2" by simp
        then show "\<exists>a. v = VRef a \<and> length h \<le> a \<and> a < length h2"
        proof
          assume "v = VRef (length h)"
          then show ?thesis using h2 by simp
        next
          assume "v \<in> set cs2"
          with fr obtain a where "v = VRef a" "length (h @ [ArrayObj vs]) \<le> a" "a < length h2" by blast
          then show ?thesis by auto
        qed
      qed
      with out l h2 show ?thesis by auto
    qed
  qed
qed

lemma the_bigints_map: "the_bigints (map VBigInt xs) = Some xs"
  by (induction xs) simp_all

lemma example_run:
  "snd (addSecretsToBatches_st 0 1 2 3 example_store) = Inr (6, 8, 2)"
  by (simp add: addSecretsToBatches_st_def read_array_def alloc_def read_bigints_def
        addSecret_st_def fit_existing_st.simps insert_at_def push_def addRoot_st_def map_set_def
        MAX_POLY_DEGREE_def example_store_def the_bigints_map nth_append)

lemma example_run_store:
  "read_array (fst (addSecretsToBatches_st 0 1 2 3 example_store)) 8 = Some [VRef 7] \<and>
   read_array (fst (addSecretsToBatches_st 0 1 2 3 example_store)) 7 = Some [VBigInt 5, VBigInt 7] \<and>
   read_array (fst (addSecretsToBatches_st 0 1 2 3 example_store)) 6 = Some [VRef 9]"
  by (simp add: addSecretsToBatches_st_def read_array_def alloc_def read_bigints_def
        addSecret_st_def fit_existing_st.simps insert_at_def push_def addRoot_st_def map_set_def
        MAX_POLY_DEGREE_def example_store_def the_bigints_map nth_append)

section \<open>The batch manager on the store: the claim\<close>

text \<open>
  Claim C10. Let \<open>userMap\<close> be the address of a \<open>Map\<close> and \<open>newSecrets\<close> that of an
  array of bigints. Whatever the other arguments and whatever the outcome of
  \<open>addSecretsToBatches\<close>, every object that was in the store before the call, other
  than the user map, is the same after it: the arrays \<open>batches\<close> and \<open>batchRoots\<close>,
  every polynomial and every root list they refer to. The user map is still at its
  address and its entries under keys other than those of the new secrets are as they
  were. When the call returns, the \<open>userMap\<close> it returns is the argument itself, the
  two arrays it returns are distinct arrays allocated by the call, every root list of
  the result is an array allocated by the call, and the user map has an entry under the
  key of every new secret.
\<close>

theorem addSecretsToBatches_st_effects:
  assumes um: "userMap < length h" and m0: "h ! userMap = MapObj m0"
    and secrets: "read_bigints h newSecrets = Some secrets"
    and run: "addSecretsToBatches_st batches batchRoots userMap newSecrets h = (h', r)"
  shows "length h \<le> length h' \<and>
         (\<forall>a. a < length h \<and> a \<noteq> userMap \<longrightarrow> h' ! a = h ! a) \<and>
         (\<exists>m'. h' ! userMap = MapObj m' \<and>
               (\<forall>k. k \<notin> toString ` set secrets \<longrightarrow> m' k = m0 k) \<and>
               (\<forall>cb cr um'. r = Inr (cb, cr, um') \<longrightarrow>
                  um' = userMap \<and> length h \<le> cb \<and> length h \<le> cr \<and> cb \<noteq> cr \<and>
                  (\<exists>ps. read_array h' cb = Some ps) \<and>
                  (\<exists>copies. read_array h' cr = Some copies \<and>
                     (\<forall>v. v \<in> set copies \<longrightarrow> (\<exists>a. v = VRef a \<and> length h \<le> a))) \<and>
                  (\<forall>s. s \<in> set secrets \<longrightarrow> m' (toString s) \<noteq> None)))"
proof -
  let ?n = "length h"
  have trivial: "?thesis" if "h' = h @ ext" "\<exists>e. r = Inl e" for ext
    using that um m0 by (auto simp add: nth_append)
  show ?thesis
  proof (cases "read_array h batches")
    case None
    with run have "h' = h @ []" "\<exists>e. r = Inl e" by (auto simp add: addSecretsToBatches_st_def)
    then show ?thesis by (rule trivial)
  next
    case polys: (Some polys)
    let ?h1 = "h @ [ArrayObj polys]"
    show ?thesis
    proof (cases "read_array ?h1 batchRoots")
      case None
      with run polys have "h' = h @ [ArrayObj polys]" "\<exists>e. r = Inl e"
        by (auto simp add: addSecretsToBatches_st_def alloc_def)
      then show ?thesis by (rule trivial)
    next
      case rl: (Some rootLists)
      obtain h2 res where ce: "copy_each ?h1 rootLists = (h2, res)"
        by (cases "copy_each ?h1 rootLists")
      from copy_each_eff[OF ce] obtain ext where ext: "h2 = ?h1 @ ext"
        and cs: "\<forall>cs. res = Some cs \<longrightarrow> length cs = length rootLists \<and>
           (\<forall>v. v \<in> set cs \<longrightarrow> (\<exists>a. v = VRef a \<and> length ?h1 \<le> a \<and> a < length h2))"
        by blast
      have h2: "h2 = h @ (ArrayObj polys # ext)" using ext by simp
      show ?thesis
      proof (cases res)
        case None
        with run polys rl ce have "h' = h2" "\<exists>e. r = Inl e"
          by (auto simp add: addSecretsToBatches_st_def alloc_def)
        with h2 show ?thesis by (intro trivial[of "ArrayObj polys # ext"]) simp_all
      next
        case copies: (Some copies)
        let ?h3 = "h2 @ [ArrayObj copies]"
        let ?cb = "length h"
        let ?cr = "length h2"
        have h3: "?h3 = h @ (ArrayObj polys # ext @ [ArrayObj copies])" using h2 by simp
        have sec3: "read_bigints ?h3 newSecrets = Some secrets"
        proof -
          from secrets have "newSecrets < length h"
            by (auto simp add: read_bigints_def read_array_def split: option.splits if_splits)
          then have "read_array ?h3 newSecrets = read_array h newSecrets"
            unfolding h3 by (simp add: read_array_def nth_append)
          with secrets show ?thesis by (simp add: read_bigints_def)
        qed
        obtain h4 r4 where loop: "addSecrets_loop_st ?cb ?cr userMap secrets ?h3 = (h4, r4)"
          by (cases "addSecrets_loop_st ?cb ?cr userMap secrets ?h3")
        from cs copies have fr: "\<forall>v. v \<in> set copies \<longrightarrow>
            (\<exists>a. v = VRef a \<and> length ?h1 \<le> a \<and> a < length h2)" by simp
        have cb3: "?h3 ! ?cb = ArrayObj polys" unfolding h3 by (simp add: nth_append)
        have cr3: "?h3 ! ?cr = ArrayObj copies" by simp
        have f3: "fresh ?n ?h3 ?cb ?cr"
          unfolding fresh_def
        proof (intro conjI)
          show "\<exists>ps. ?h3 ! ?cb = ArrayObj ps" using cb3 by blast
          show "\<exists>refs. ?h3 ! ?cr = ArrayObj refs \<and>
             (\<forall>v. v \<in> set refs \<longrightarrow> (\<exists>a. v = VRef a \<and> ?n \<le> a \<and> a \<noteq> ?cb \<and> a \<noteq> ?cr))"
          proof (intro exI[of _ copies] conjI allI impI)
            show "?h3 ! ?cr = ArrayObj copies" by (rule cr3)
          next
            fix v assume "v \<in> set copies"
            with fr obtain a where "v = VRef a" "length ?h1 \<le> a" "a < length h2" by blast
            then show "\<exists>a. v = VRef a \<and> ?n \<le> a \<and> a \<noteq> ?cb \<and> a \<noteq> ?cr" by auto
          qed
        qed (simp_all add: h2)
        have n3: "?n \<le> length ?h3" by (simp add: h2)
        have m3: "?h3 ! userMap = MapObj m0" unfolding h3 using um m0 by (simp add: nth_append)
        from addSecrets_loop_st_eff[OF f3 n3 um m3 loop] obtain m' where
          p4: "pres ?n userMap ?h3 h4" and f4: "fresh ?n h4 ?cb ?cr"
          and m4: "h4 ! userMap = MapObj m'"
          and other: "\<forall>k. k \<notin> toString ` set secrets \<longrightarrow> m' k = m0 k"
          and allset: "r4 = Inr () \<longrightarrow> (\<forall>s. s \<in> set secrets \<longrightarrow> m' (toString s) \<noteq> None)"
          by blast
        have out: "h' = h4 \<and> (case r4 of Inl e \<Rightarrow> r = Inl e | Inr u \<Rightarrow> r = Inr (?cb, ?cr, userMap))"
          using run polys rl ce copies sec3 loop
          by (auto simp add: addSecretsToBatches_st_def alloc_def split: sum.splits)
        have len: "length h \<le> length h4" using p4 n3 by (simp add: pres_def)
        have frame: "\<forall>a. a < length h \<and> a \<noteq> userMap \<longrightarrow> h4 ! a = h ! a"
        proof (intro allI impI)
          fix a assume a: "a < length h \<and> a \<noteq> userMap"
          then have "h4 ! a = ?h3 ! a" using p4 by (simp add: pres_def)
          also have "\<dots> = h ! a" unfolding h3 using a by (simp add: nth_append)
          finally show "h4 ! a = h ! a" .
        qed
        from f4 obtain ps refs where
          cb4: "h4 ! ?cb = ArrayObj ps" "?cb < length h4"
          and cr4: "h4 ! ?cr = ArrayObj refs" "?cr < length h4"
          and refs4: "\<forall>v. v \<in> set refs \<longrightarrow> (\<exists>a. v = VRef a \<and> ?n \<le> a \<and> a \<noteq> ?cb \<and> a \<noteq> ?cr)"
          by (auto simp add: fresh_def)
        have ra_cb: "\<exists>ps. read_array h4 ?cb = Some ps" using cb4 by (simp add: read_array_def)
        have ra_cr: "\<exists>copies. read_array h4 ?cr = Some copies \<and>
                     (\<forall>v. v \<in> set copies \<longrightarrow> (\<exists>a. v = VRef a \<and> length h \<le> a))"
          using cr4 refs4 by (intro exI[of _ refs]) (auto simp add: read_array_def)
        have ne: "?cb \<noteq> ?cr" "?n \<le> ?cr" by (simp_all add: h2)
        have succ: "\<forall>cb cr um'. r = Inr (cb, cr, um') \<longrightarrow>
                  um' = userMap \<and> length h \<le> cb \<and> length h \<le> cr \<and> cb \<noteq> cr \<and>
                  (\<exists>ps. read_array h4 cb = Some ps) \<and>
                  (\<exists>copies. read_array h4 cr = Some copies \<and>
                     (\<forall>v. v \<in> set copies \<longrightarrow> (\<exists>a. v = VRef a \<and> length h \<le> a))) \<and>
                  (\<forall>s. s \<in> set secrets \<longrightarrow> m' (toString s) \<noteq> None)"
        proof (intro allI impI)
          fix cb cr um' assume r: "r = Inr (cb, cr, um')"
          with out obtain u where r4: "r4 = Inr u" and eq: "cb = ?cb" "cr = ?cr" "um' = userMap"
            by (cases r4) auto
          from r4 allset have d: "\<forall>s. s \<in> set secrets \<longrightarrow> m' (toString s) \<noteq> None" by simp
          show "um' = userMap \<and> length h \<le> cb \<and> length h \<le> cr \<and> cb \<noteq> cr \<and>
                  (\<exists>ps. read_array h4 cb = Some ps) \<and>
                  (\<exists>copies. read_array h4 cr = Some copies \<and>
                     (\<forall>v. v \<in> set copies \<longrightarrow> (\<exists>a. v = VRef a \<and> length h \<le> a))) \<and>
                  (\<forall>s. s \<in> set secrets \<longrightarrow> m' (toString s) \<noteq> None)"
            unfolding eq using ne ra_cb ra_cr d by simp
        qed
        from out have h': "h' = h4" by simp
        show ?thesis
          unfolding h'
        proof (intro conjI exI[of _ m'])
          show "length h \<le> length h4" by (rule len)
          show "\<forall>a. a < length h \<and> a \<noteq> userMap \<longrightarrow> h4 ! a = h ! a" by (rule frame)
          show "h4 ! userMap = MapObj m'" by (rule m4)
          show "\<forall>k. k \<notin> toString ` set secrets \<longrightarrow> m' k = m0 k" by (rule other)
          show "\<forall>cb cr um'. r = Inr (cb, cr, um') \<longrightarrow>
                  um' = userMap \<and> length h \<le> cb \<and> length h \<le> cr \<and> cb \<noteq> cr \<and>
                  (\<exists>ps. read_array h4 cb = Some ps) \<and>
                  (\<exists>copies. read_array h4 cr = Some copies \<and>
                     (\<forall>v. v \<in> set copies \<longrightarrow> (\<exists>a. v = VRef a \<and> length h \<le> a))) \<and>
                  (\<forall>s. s \<in> set secrets \<longrightarrow> m' (toString s) \<noteq> None)" by (rule succ)
        qed
      qed
    qed
  qed
qed

theorem addSecretsToBatches_st_effects_witness:
  "2 < length example_store \<and> example_store ! 2 = MapObj [toString 5 \<mapsto> 0] \<and>
   read_bigints example_store 3 = Some [7] \<and>
   snd (addSecretsToBatches_st 0 1 2 3 example_store) = Inr (6, 8, 2) \<and>
   fst (addSecretsToBatches_st 0 1 2 3 example_store) ! 0 = ArrayObj [VRef 4] \<and>
   fst (addSecretsToBatches_st 0 1 2 3 example_store) ! 1 = ArrayObj [VRef 5] \<and>
   fst (addSecretsToBatches_st 0 1 2 3 example_store) ! 4 = ArrayObj (map VBigInt (addRoot [1] 5)) \<and>
   fst (addSecretsToBatches_st 0 1 2 3 example_store) ! 5 = ArrayObj [VBigInt 5] \<and>
   (\<exists>m'. fst (addSecretsToBatches_st 0 1 2 3 example_store) ! 2 = MapObj m' \<and>
         m' (toString 5) = Some 0 \<and> m' (toString 7) \<noteq> None) \<and>
   read_array (fst (addSecretsToBatches_st 0 1 2 3 example_store)) 7 = Some [VBigInt 5, VBigInt 7]"
proof -
  let ?res = "addSecretsToBatches_st 0 1 2 3 example_store"
  have um: "2 < length example_store" by (simp add: example_store_def)
  have m0: "example_store ! 2 = MapObj [toString 5 \<mapsto> 0]" by (simp add: example_store_def)
  have sec: "read_bigints example_store 3 = Some [7]"
    by (simp add: example_store_def read_bigints_def read_array_def)
  have run: "?res = (fst ?res, snd ?res)" by simp
  have r: "snd ?res = Inr (6, 8, 2)" by (rule example_run)
  from addSecretsToBatches_st_effects[OF um m0 sec run] obtain m' where
    frame: "\<forall>a. a < length example_store \<and> a \<noteq> 2 \<longrightarrow> fst ?res ! a = example_store ! a"
    and m': "fst ?res ! 2 = MapObj m'"
    and other: "\<forall>k. k \<notin> toString ` set [7] \<longrightarrow> m' k = [toString 5 \<mapsto> 0] k"
    and succ: "\<forall>s. s \<in> set [7] \<longrightarrow> m' (toString s) \<noteq> None"
    using r by auto
  have ne: "toString 5 \<noteq> toString 7" using toString_inj[of 5 7] by auto
  have k5: "m' (toString 5) = Some 0" using other ne by simp
  have k7: "m' (toString 7) \<noteq> None" using succ by simp
  have f0: "fst ?res ! 0 = ArrayObj [VRef 4]" using frame by (simp add: example_store_def)
  have f1: "fst ?res ! 1 = ArrayObj [VRef 5]" using frame by (simp add: example_store_def)
  have f4: "fst ?res ! 4 = ArrayObj (map VBigInt (addRoot [1] 5))"
    using frame by (simp add: example_store_def)
  have f5: "fst ?res ! 5 = ArrayObj [VBigInt 5]" using frame by (simp add: example_store_def)
  from example_run_store have c7: "read_array (fst ?res) 7 = Some [VBigInt 5, VBigInt 7]" by simp
  from m' k5 k7 have ex: "\<exists>m'. fst ?res ! 2 = MapObj m' \<and>
         m' (toString 5) = Some 0 \<and> m' (toString 7) \<noteq> None" by blast
  from um m0 sec r f0 f1 f4 f5 ex c7 show ?thesis by simp
qed

section \<open>The model on the store computes what the model on values computes\<close>

lemma the_bigints_snoc:
  "the_bigints vs = Some xs \<Longrightarrow> the_bigints (vs @ [VBigInt x]) = Some (xs @ [x])"
proof (induction vs arbitrary: xs)
  case Nil
  then show ?case by simp
next
  case (Cons v vs)
  then show ?case by (cases v) (auto split: option.splits)
qed

lemma the_bigints_length: "the_bigints vs = Some xs \<Longrightarrow> length xs = length vs"
proof (induction vs arbitrary: xs)
  case Nil
  then show ?case by simp
next
  case (Cons v vs)
  then show ?case by (cases v) (auto split: option.splits)
qed

lemma read_bigints_Some:
  "read_bigints h a = Some xs \<Longrightarrow> a < length h \<and> (\<exists>vs. h ! a = ArrayObj vs \<and> the_bigints vs = Some xs)"
  by (auto simp add: read_bigints_def read_array_def split: option.splits if_splits js_object.splits)

lemma read_bigints_eq:
  "a < length h \<Longrightarrow> a < length h' \<Longrightarrow> h' ! a = h ! a \<Longrightarrow> read_bigints h' a = read_bigints h a"
  by (simp add: read_bigints_def read_array_def)

lemma read_bigints_at:
  "a < length h \<Longrightarrow> h ! a = ArrayObj vs \<Longrightarrow> read_bigints h a = the_bigints vs"
  by (simp add: read_bigints_def read_array_def)

lemma read_array_at:
  "a < length h \<Longrightarrow> h ! a = ArrayObj vs \<Longrightarrow> read_array h a = Some vs"
  by (simp add: read_array_def)

lemma insert_at_refines:
  assumes rel: "st_rel n um cb cr h (bs, rs, m)"
    and i: "i < length rs"
    and roots: "h ! cr = ArrayObj roots" and ri: "roots ! i = VRef ri"
  shows "\<exists>h'. insert_at i ri cb um s h = (h', Inr True) \<and>
           st_rel n um cb cr h' (bs[i := addRoot (bs ! i) s], rs[i := rs ! i @ [s]], m(toString s \<mapsto> i))"
proof -
  from rel obtain prefs rrefs where
    um: "um < n" and cb: "n \<le> cb" "cb < length h" and cr: "n \<le> cr" "cr < length h" "cb \<noteq> cr"
    and n: "n \<le> length h" and hm: "h ! um = MapObj m" and len: "length bs = length rs"
    and hcb: "h ! cb = ArrayObj (map VRef prefs)" and hcr: "h ! cr = ArrayObj (map VRef rrefs)"
    and lp: "length prefs = length bs" and lr: "length rrefs = length rs" and dist: "distinct rrefs"
    and rr: "\<forall>a. a \<in> set rrefs \<longrightarrow> n \<le> a \<and> a < length h \<and> a \<noteq> cb \<and> a \<noteq> cr \<and> a \<notin> set prefs"
    and pr: "\<forall>a. a \<in> set prefs \<longrightarrow> a < length h \<and> a \<noteq> cb \<and> a \<noteq> cr"
    and pb: "\<forall>i. i < length bs \<longrightarrow> read_bigints h (prefs ! i) = Some (bs ! i)"
    and rb: "\<forall>i. i < length rs \<longrightarrow> read_bigints h (rrefs ! i) = Some (rs ! i)"
    by (auto simp add: st_rel_def)
  have ri_eq: "ri = rrefs ! i"
  proof -
    from roots hcr have "roots = map VRef rrefs" by simp
    with ri i lr show ?thesis by simp
  qed
  have ri_mem: "ri \<in> set rrefs" unfolding ri_eq using i lr by simp
  with rr have ri_props: "n \<le> ri" "ri < length h" "ri \<noteq> cb" "ri \<noteq> cr" "ri \<notin> set prefs" by auto
  have um_lt: "um < length h" using um n by simp
  have um_ne: "um \<noteq> ri" "um \<noteq> cb" "um \<noteq> cr" using um ri_props cb cr by simp_all
  from rb i ri_eq have "read_bigints h ri = Some (rs ! i)" by simp
  from read_bigints_Some[OF this] obtain vs where
    hri: "h ! ri = ArrayObj vs" and vs: "the_bigints vs = Some (rs ! i)" by blast
  define A1 where "A1 = ArrayObj (vs @ [VBigInt s])"
  define h1 where "h1 = h[ri := A1]"
  have push: "push h ri (VBigInt s) = Some h1"
    using ri_props hri by (simp add: push_def read_array_def h1_def A1_def)
  have l1: "length h1 = length h" by (simp add: h1_def)
  have h1cb: "h1 ! cb = ArrayObj (map VRef prefs)" using ri_props hcb by (simp add: h1_def)
  have ra1: "read_array h1 cb = Some (map VRef prefs)"
    using h1cb cb l1 by (simp add: read_array_def)
  have ip: "i < length prefs" using i len lp by simp
  define op where "op = prefs ! i"
  have op_mem: "op \<in> set prefs" unfolding op_def using ip by simp
  with pr ri_props have op_props: "op < length h" "op \<noteq> cb" "op \<noteq> cr" "op \<noteq> ri" by auto
  have "read_bigints h op = Some (bs ! i)" using pb ip lp by (simp add: op_def)
  then have rb1: "read_bigints h1 op = Some (bs ! i)"
    using op_props by (simp add: read_bigints_def read_array_def h1_def)
  define A2 where "A2 = ArrayObj (map VBigInt (addRoot (bs ! i) s))"
  define h2 where "h2 = h1 @ [A2]"
  define np where "np = length h"
  have ar: "addRoot_st h1 op s = Some (h2, np)"
    using rb1 by (simp add: addRoot_st_def alloc_def h2_def A2_def np_def l1)
  have l2: "length h2 = length h + 1" by (simp add: h2_def l1)
  have h2cb: "h2 ! cb = ArrayObj (map VRef prefs)" using h1cb cb l1 by (simp add: h2_def nth_append)
  have ra2: "read_array h2 cb = Some (map VRef prefs)" using h2cb cb l2 by (simp add: read_array_def)
  define A3 where "A3 = ArrayObj (map VRef (prefs[i := np]))"
  define h3 where "h3 = h2[cb := A3]"
  have A3_eq: "ArrayObj ((map VRef prefs)[i := VRef np]) = A3" by (simp add: A3_def map_update)
  have l3: "length h3 = length h + 1" by (simp add: h3_def l2)
  have h3um: "h3 ! um = MapObj m"
    using um_ne um_lt hm l1 by (simp add: h3_def h2_def h1_def nth_append)
  define A4 where "A4 = MapObj (m(toString s \<mapsto> i))"
  define h4 where "h4 = h3[um := A4]"
  have ms: "map_set h3 um (toString s) i = Some h4"
    using h3um um_lt l3 by (simp add: map_set_def h4_def A4_def)
  have run: "insert_at i ri cb um s h = (h4, Inr True)"
    using push ra1 ip ar ra2 ms by (simp add: insert_at_def op_def A3_eq h3_def[symmetric])
  have l4: "length h4 = length h + 1" by (simp add: h4_def l3)
  have old: "h4 ! a = h ! a" if "a < length h" "a \<noteq> um" "a \<noteq> cb" "a \<noteq> ri" for a
    using that l1 by (simp add: h4_def h3_def h2_def h1_def nth_append)
  have h4um: "h4 ! um = A4" using um_lt l3 by (simp add: h4_def)
  have h4cb: "h4 ! cb = A3" using um_ne cb l2 by (simp add: h4_def h3_def)
  have h4ri: "h4 ! ri = A1"
    using um_ne ri_props l1 by (simp add: h4_def h3_def h2_def h1_def nth_append)
  have h4np: "h4 ! np = A2"
    using um_lt cb l1 by (simp add: h4_def h3_def h2_def np_def nth_append)
  have h4cr: "h4 ! cr = ArrayObj (map VRef rrefs)"
    using old[of cr] cr um_ne ri_props hcr by simp
  have rr': "\<forall>a. a \<in> set rrefs \<longrightarrow> n \<le> a \<and> a < length h4 \<and> a \<noteq> cb \<and> a \<noteq> cr \<and> a \<notin> set (prefs[i := np])"
  proof (intro allI impI)
    fix a assume a: "a \<in> set rrefs"
    with rr have p: "n \<le> a" "a < length h" "a \<noteq> cb" "a \<noteq> cr" "a \<notin> set prefs" by auto
    have "set (prefs[i := np]) \<subseteq> insert np (set prefs)" by (rule set_update_subset_insert)
    with p have "a \<notin> set (prefs[i := np])" by (auto simp add: np_def)
    with p l4 show "n \<le> a \<and> a < length h4 \<and> a \<noteq> cb \<and> a \<noteq> cr \<and> a \<notin> set (prefs[i := np])" by simp
  qed
  have pr': "\<forall>a. a \<in> set (prefs[i := np]) \<longrightarrow> a < length h4 \<and> a \<noteq> cb \<and> a \<noteq> cr"
  proof (intro allI impI)
    fix a assume "a \<in> set (prefs[i := np])"
    then have "a = np \<or> a \<in> set prefs" using set_update_subset_insert[of prefs i np] by auto
    then show "a < length h4 \<and> a \<noteq> cb \<and> a \<noteq> cr"
      using pr cb cr l4 by (auto simp add: np_def)
  qed
  have pb': "\<forall>j. j < length (bs[i := addRoot (bs ! i) s]) \<longrightarrow>
        read_bigints h4 (prefs[i := np] ! j) = Some (bs[i := addRoot (bs ! i) s] ! j)"
  proof (intro allI impI)
    fix j assume j: "j < length (bs[i := addRoot (bs ! i) s])"
    then have jl: "j < length bs" by simp
    show "read_bigints h4 (prefs[i := np] ! j) = Some (bs[i := addRoot (bs ! i) s] ! j)"
    proof (cases "j = i")
      case True
      have "read_bigints h4 np = the_bigints (map VBigInt (addRoot (bs ! i) s))"
        using h4np l4 by (intro read_bigints_at) (simp_all add: np_def A2_def)
      with True ip jl show ?thesis by (simp add: the_bigints_map)
    next
      case False
      have mem: "prefs ! j \<in> set prefs" using jl lp by simp
      with pr ri_props have q: "prefs ! j < length h" "prefs ! j \<noteq> cb" "prefs ! j \<noteq> ri" by auto
      from pb jl have rd: "read_bigints h (prefs ! j) = Some (bs ! j)" by simp
      with hm have "prefs ! j \<noteq> um"
        by (auto simp add: read_bigints_def read_array_def split: if_splits)
      with q have "h4 ! (prefs ! j) = h ! (prefs ! j)" by (intro old)
      with q l4 rd have "read_bigints h4 (prefs ! j) = Some (bs ! j)"
        by (simp add: read_bigints_eq[of "prefs ! j" h h4])
      with False show ?thesis by simp
    qed
  qed
  have rb': "\<forall>j. j < length (rs[i := rs ! i @ [s]]) \<longrightarrow>
        read_bigints h4 (rrefs ! j) = Some (rs[i := rs ! i @ [s]] ! j)"
  proof (intro allI impI)
    fix j assume j: "j < length (rs[i := rs ! i @ [s]])"
    then have jl: "j < length rs" by simp
    show "read_bigints h4 (rrefs ! j) = Some (rs[i := rs ! i @ [s]] ! j)"
    proof (cases "j = i")
      case True
      have "read_bigints h4 ri = the_bigints (vs @ [VBigInt s])"
        using h4ri ri_props l4 by (intro read_bigints_at) (simp_all add: A1_def)
      with True i vs show ?thesis by (simp add: ri_eq the_bigints_snoc)
    next
      case False
      have mem: "rrefs ! j \<in> set rrefs" using jl lr by simp
      with rr um have q: "rrefs ! j < length h" "rrefs ! j \<noteq> cb" "rrefs ! j \<noteq> um" by auto
      have "rrefs ! j \<noteq> ri"
        unfolding ri_eq using dist False jl i lr by (simp add: nth_eq_iff_index_eq)
      with q have "h4 ! (rrefs ! j) = h ! (rrefs ! j)" by (intro old)
      with q l4 rb jl have "read_bigints h4 (rrefs ! j) = Some (rs ! j)"
        by (simp add: read_bigints_eq[of "rrefs ! j" h h4])
      with False show ?thesis by simp
    qed
  qed
  have ex: "\<exists>prefs' rrefs'.
           h4 ! cb = ArrayObj (map VRef prefs') \<and> h4 ! cr = ArrayObj (map VRef rrefs') \<and>
           length prefs' = length (bs[i := addRoot (bs ! i) s]) \<and>
           length rrefs' = length (rs[i := rs ! i @ [s]]) \<and> distinct rrefs' \<and>
           (\<forall>a. a \<in> set rrefs' \<longrightarrow> n \<le> a \<and> a < length h4 \<and> a \<noteq> cb \<and> a \<noteq> cr \<and> a \<notin> set prefs') \<and>
           (\<forall>a. a \<in> set prefs' \<longrightarrow> a < length h4 \<and> a \<noteq> cb \<and> a \<noteq> cr) \<and>
           (\<forall>j. j < length (bs[i := addRoot (bs ! i) s]) \<longrightarrow>
                read_bigints h4 (prefs' ! j) = Some (bs[i := addRoot (bs ! i) s] ! j)) \<and>
           (\<forall>j. j < length (rs[i := rs ! i @ [s]]) \<longrightarrow>
                read_bigints h4 (rrefs' ! j) = Some (rs[i := rs ! i @ [s]] ! j))"
    apply (rule exI[of _ "prefs[i := np]"])
    apply (rule exI[of _ rrefs])
    using h4cb h4cr lp lr dist rr' pr' pb' rb' by (simp add: A3_def)
  have "st_rel n um cb cr h4 (bs[i := addRoot (bs ! i) s], rs[i := rs ! i @ [s]], m(toString s \<mapsto> i))"
    unfolding st_rel_def prod.case
    using um cb cr n l4 len h4um ex by (simp add: A4_def)
  with run show ?thesis by blast
qed

lemma st_rel_cr:
  "st_rel n um cb cr h (bs, rs, m) \<Longrightarrow>
   \<exists>rrefs. h ! cr = ArrayObj (map VRef rrefs) \<and> length rrefs = length rs \<and> cr < length h \<and>
     length bs = length rs \<and>
     (\<forall>i. i < length rs \<longrightarrow> read_bigints h (rrefs ! i) = Some (rs ! i))"
  by (auto simp add: st_rel_def)

lemma fit_existing_st_refines:
  assumes rel: "st_rel n um cb cr h (bs, rs, m)"
  shows "(fit_existing i (bs, rs, m) s = Inr None \<longrightarrow> fit_existing_st i cb cr um s h = (h, Inr False)) \<and>
         (\<forall>st'. fit_existing i (bs, rs, m) s = Inr (Some st') \<longrightarrow>
            (\<exists>h'. fit_existing_st i cb cr um s h = (h', Inr True) \<and> st_rel n um cb cr h' st')) \<and>
         (\<forall>e. fit_existing i (bs, rs, m) s \<noteq> Inl e)"
proof (induction "length rs - i" arbitrary: i)
  case 0
  from st_rel_cr[OF rel] obtain rrefs where
    hcr: "h ! cr = ArrayObj (map VRef rrefs)" and lr: "length rrefs = length rs" and crl: "cr < length h"
    by blast
  have ra: "read_array h cr = Some (map VRef rrefs)" using hcr crl by (rule read_array_at[rotated])
  from 0 have ni: "\<not> i < length rs" by simp
  have p: "fit_existing i (bs, rs, m) s = Inr None" using ni by (subst fit_existing.simps) simp
  have q: "fit_existing_st i cb cr um s h = (h, Inr False)"
    using ni ra lr by (subst fit_existing_st.simps) simp
  from p q show ?case by simp
next
  case (Suc k)
  from st_rel_cr[OF rel] obtain rrefs where
    hcr: "h ! cr = ArrayObj (map VRef rrefs)" and lr: "length rrefs = length rs" and crl: "cr < length h"
    and len: "length bs = length rs"
    and rb: "\<forall>i. i < length rs \<longrightarrow> read_bigints h (rrefs ! i) = Some (rs ! i)"
    by blast
  have ra: "read_array h cr = Some (map VRef rrefs)" using hcr crl by (rule read_array_at[rotated])
  from Suc have i: "i < length rs" by simp
  have ri: "map VRef rrefs ! i = VRef (rrefs ! i)" using i lr by simp
  from rb i have "read_bigints h (rrefs ! i) = Some (rs ! i)" by simp
  from read_bigints_Some[OF this] obtain vs where
    ril: "rrefs ! i < length h" and hri: "h ! (rrefs ! i) = ArrayObj vs"
    and vs: "the_bigints vs = Some (rs ! i)" by blast
  have rari: "read_array h (rrefs ! i) = Some vs" using hri ril by (rule read_array_at[rotated])
  have lvs: "length vs = length (rs ! i)" using the_bigints_length[OF vs] by simp
  show ?case
  proof (cases "length (rs ! i) < MAX_POLY_DEGREE")
    case True
    have p: "fit_existing i (bs, rs, m) s =
        Inr (Some (bs[i := addRoot (bs ! i) s], rs[i := rs ! i @ [s]], m(toString s \<mapsto> i)))"
      using i True len by (subst fit_existing.simps) simp
    have q: "fit_existing_st i cb cr um s h = insert_at i (rrefs ! i) cb um s h"
      using i True ra lr ri rari lvs by (subst fit_existing_st.simps) simp
    from insert_at_refines[OF rel i hcr ri, of s] q p show ?thesis by simp
  next
    case False
    have p: "fit_existing i (bs, rs, m) s = fit_existing (i + 1) (bs, rs, m) s"
      using i False by (subst fit_existing.simps) simp
    have q: "fit_existing_st i cb cr um s h = fit_existing_st (i + 1) cb cr um s h"
      using i False ra lr ri rari lvs by (subst fit_existing_st.simps) simp
    have k: "k = length rs - (i + 1)" using Suc.hyps(2) by simp
    from Suc.hyps(1)[OF k] show ?thesis unfolding p q .
  qed
qed

lemma open_batch_refines:
  assumes rel: "st_rel n um cb cr h (bs, rs, m)"
  shows "\<exists>h'. open_batch cb cr um s h = (h', Inr ()) \<and>
           st_rel n um cb cr h' (bs @ [addRoot [1] s], rs @ [[s]], m(toString s \<mapsto> length rs))"
proof -
  from rel obtain prefs rrefs where
    um: "um < n" and cb: "n \<le> cb" "cb < length h" and cr: "n \<le> cr" "cr < length h" "cb \<noteq> cr"
    and n: "n \<le> length h" and hm: "h ! um = MapObj m" and len: "length bs = length rs"
    and hcb: "h ! cb = ArrayObj (map VRef prefs)" and hcr: "h ! cr = ArrayObj (map VRef rrefs)"
    and lp: "length prefs = length bs" and lr: "length rrefs = length rs" and dist: "distinct rrefs"
    and rr: "\<forall>a. a \<in> set rrefs \<longrightarrow> n \<le> a \<and> a < length h \<and> a \<noteq> cb \<and> a \<noteq> cr \<and> a \<notin> set prefs"
    and pr: "\<forall>a. a \<in> set prefs \<longrightarrow> a < length h \<and> a \<noteq> cb \<and> a \<noteq> cr"
    and pb: "\<forall>i. i < length bs \<longrightarrow> read_bigints h (prefs ! i) = Some (bs ! i)"
    and rb: "\<forall>i. i < length rs \<longrightarrow> read_bigints h (rrefs ! i) = Some (rs ! i)"
    by (auto simp add: st_rel_def)
  have um_lt: "um < length h" using um n by simp
  have um_ne: "um \<noteq> cb" "um \<noteq> cr" using um cb cr by simp_all
  define L where "L = length h"
  define A1 where "A1 = ArrayObj [VBigInt s]"
  define A2 where "A2 = ArrayObj [VBigInt 1]"
  define A3 where "A3 = ArrayObj (map VBigInt (addRoot [1] s))"
  define h4 where "h4 = h @ [A1, A2, A3]"
  have ar: "addRoot_st ((h @ [A1]) @ [A2]) (length (h @ [A1])) s = Some (h4, L + 2)"
    by (simp add: addRoot_st_def alloc_def read_bigints_def read_array_def h4_def A2_def A3_def
          L_def nth_append)
  have l4: "length h4 = L + 3" by (simp add: h4_def L_def)
  have old4: "h4 ! a = h ! a" if "a < length h" for a using that by (simp add: h4_def nth_append)
  define A5 where "A5 = ArrayObj (map VRef (rrefs @ [L]))"
  define h5 where "h5 = h4[cr := A5]"
  have p5: "push h4 cr (VRef L) = Some h5"
    using old4[of cr] cr hcr l4 by (simp add: push_def read_array_def h5_def A5_def L_def)
  define A6 where "A6 = ArrayObj (map VRef (prefs @ [L + 2]))"
  define h6 where "h6 = h5[cb := A6]"
  have h5cb: "h5 ! cb = ArrayObj (map VRef prefs)"
    using old4[of cb] cb cr hcb by (simp add: h5_def)
  have p6: "push h5 cb (VRef (L + 2)) = Some h6"
    using h5cb cb l4 by (simp add: push_def read_array_def h6_def A6_def h5_def L_def)
  have h6cr: "h6 ! cr = A5" using cr l4 by (simp add: h6_def h5_def L_def)
  have ra6: "read_array h6 cr = Some (map VRef (rrefs @ [L]))"
    using h6cr cr l4 by (simp add: read_array_def h6_def h5_def A5_def L_def)
  have h6um: "h6 ! um = MapObj m"
    using old4[of um] um_lt um_ne hm by (simp add: h6_def h5_def)
  define A7 where "A7 = MapObj (m(toString s \<mapsto> length rs))"
  define h7 where "h7 = h6[um := A7]"
  have ms: "map_set h6 um (toString s) (length (map VRef (rrefs @ [L])) - 1) = Some h7"
    using h6um um_lt l4 lr by (simp add: map_set_def h7_def A7_def h6_def h5_def L_def)
  have run: "open_batch cb cr um s h = (h7, Inr ())"
    using ar p5 p6 ra6 ms
    by (simp add: open_batch_def alloc_def A1_def[symmetric] A2_def[symmetric] L_def[symmetric])
  have l7: "length h7 = L + 3" by (simp add: h7_def h6_def h5_def l4)
  have old: "h7 ! a = h ! a" if "a < length h" "a \<noteq> um" "a \<noteq> cb" "a \<noteq> cr" for a
    using that old4[of a] by (simp add: h7_def h6_def h5_def)
  have h7um: "h7 ! um = A7" using um_lt l4 by (simp add: h7_def h6_def h5_def L_def)
  have h7cb: "h7 ! cb = A6" using um_ne cb l4 by (simp add: h7_def h6_def h5_def L_def)
  have h7cr: "h7 ! cr = A5" using um_ne h6cr by (simp add: h7_def)
  have h7L: "h7 ! L = A1"
    using um_lt cb cr by (simp add: h7_def h6_def h5_def h4_def L_def nth_append)
  have h7L2: "h7 ! (L + 2) = A3"
    using um_lt cb cr by (simp add: h7_def h6_def h5_def h4_def L_def nth_append)
  have rr': "\<forall>a. a \<in> set (rrefs @ [L]) \<longrightarrow>
        n \<le> a \<and> a < length h7 \<and> a \<noteq> cb \<and> a \<noteq> cr \<and> a \<notin> set (prefs @ [L + 2])"
  proof (intro allI impI)
    fix a assume "a \<in> set (rrefs @ [L])"
    then have "a \<in> set rrefs \<or> a = L" by auto
    then show "n \<le> a \<and> a < length h7 \<and> a \<noteq> cb \<and> a \<noteq> cr \<and> a \<notin> set (prefs @ [L + 2])"
    proof
      assume "a \<in> set rrefs"
      with rr have "n \<le> a" "a < length h" "a \<noteq> cb" "a \<noteq> cr" "a \<notin> set prefs" by auto
      then show ?thesis using l7 by (auto simp add: L_def)
    next
      assume a: "a = L"
      have "L \<notin> set prefs" using pr by (auto simp add: L_def)
      with a n cb cr l7 show ?thesis by (auto simp add: L_def)
    qed
  qed
  have dist': "distinct (rrefs @ [L])" using dist rr by (auto simp add: L_def)
  have pr': "\<forall>a. a \<in> set (prefs @ [L + 2]) \<longrightarrow> a < length h7 \<and> a \<noteq> cb \<and> a \<noteq> cr"
    using pr cb cr l7 by (auto simp add: L_def)
  have pb': "\<forall>j. j < length (bs @ [addRoot [1] s]) \<longrightarrow>
        read_bigints h7 ((prefs @ [L + 2]) ! j) = Some ((bs @ [addRoot [1] s]) ! j)"
  proof (intro allI impI)
    fix j assume j: "j < length (bs @ [addRoot [1] s])"
    show "read_bigints h7 ((prefs @ [L + 2]) ! j) = Some ((bs @ [addRoot [1] s]) ! j)"
    proof (cases "j < length bs")
      case True
      have mem: "prefs ! j \<in> set prefs" using True lp by simp
      with pr have q: "prefs ! j < length h" "prefs ! j \<noteq> cb" "prefs ! j \<noteq> cr" by auto
      from pb True have rd: "read_bigints h (prefs ! j) = Some (bs ! j)" by simp
      with hm have "prefs ! j \<noteq> um"
        by (auto simp add: read_bigints_def read_array_def split: if_splits)
      with q have "h7 ! (prefs ! j) = h ! (prefs ! j)" by (intro old)
      with q l7 rd have "read_bigints h7 (prefs ! j) = Some (bs ! j)"
        by (simp add: read_bigints_eq[of "prefs ! j" h h7] L_def)
      with True lp show ?thesis by (simp add: nth_append)
    next
      case False
      with j have jj: "j = length bs" by simp
      have "read_bigints h7 (L + 2) = the_bigints (map VBigInt (addRoot [1] s))"
        using h7L2 l7 by (intro read_bigints_at) (simp_all add: A3_def)
      then show ?thesis using jj lp by (simp add: nth_append the_bigints_map)
    qed
  qed
  have rb': "\<forall>j. j < length (rs @ [[s]]) \<longrightarrow>
        read_bigints h7 ((rrefs @ [L]) ! j) = Some ((rs @ [[s]]) ! j)"
  proof (intro allI impI)
    fix j assume j: "j < length (rs @ [[s]])"
    show "read_bigints h7 ((rrefs @ [L]) ! j) = Some ((rs @ [[s]]) ! j)"
    proof (cases "j < length rs")
      case True
      have mem: "rrefs ! j \<in> set rrefs" using True lr by simp
      with rr um have q: "rrefs ! j < length h" "rrefs ! j \<noteq> cb" "rrefs ! j \<noteq> cr" "rrefs ! j \<noteq> um"
        by auto
      then have "h7 ! (rrefs ! j) = h ! (rrefs ! j)" by (intro old)
      with q l7 rb True have "read_bigints h7 (rrefs ! j) = Some (rs ! j)"
        by (simp add: read_bigints_eq[of "rrefs ! j" h h7] L_def)
      with True lr show ?thesis by (simp add: nth_append)
    next
      case False
      with j have jj: "j = length rs" by simp
      have "read_bigints h7 L = the_bigints [VBigInt s]"
        using h7L l7 by (intro read_bigints_at) (simp_all add: A1_def)
      then show ?thesis using jj lr by (simp add: nth_append)
    qed
  qed
  have ex: "\<exists>prefs' rrefs'.
           h7 ! cb = ArrayObj (map VRef prefs') \<and> h7 ! cr = ArrayObj (map VRef rrefs') \<and>
           length prefs' = length (bs @ [addRoot [1] s]) \<and>
           length rrefs' = length (rs @ [[s]]) \<and> distinct rrefs' \<and>
           (\<forall>a. a \<in> set rrefs' \<longrightarrow> n \<le> a \<and> a < length h7 \<and> a \<noteq> cb \<and> a \<noteq> cr \<and> a \<notin> set prefs') \<and>
           (\<forall>a. a \<in> set prefs' \<longrightarrow> a < length h7 \<and> a \<noteq> cb \<and> a \<noteq> cr) \<and>
           (\<forall>j. j < length (bs @ [addRoot [1] s]) \<longrightarrow>
                read_bigints h7 (prefs' ! j) = Some ((bs @ [addRoot [1] s]) ! j)) \<and>
           (\<forall>j. j < length (rs @ [[s]]) \<longrightarrow>
                read_bigints h7 (rrefs' ! j) = Some ((rs @ [[s]]) ! j))"
    apply (rule exI[of _ "prefs @ [L + 2]"])
    apply (rule exI[of _ "rrefs @ [L]"])
    using h7cb h7cr lp lr dist' rr' pr' pb' rb' by (simp add: A5_def A6_def)
  have "st_rel n um cb cr h7 (bs @ [addRoot [1] s], rs @ [[s]], m(toString s \<mapsto> length rs))"
    unfolding st_rel_def prod.case
    using um cb cr n l7 len h7um ex by (simp add: A7_def L_def)
  with run show ?thesis by blast
qed

lemma addSecret_st_refines:
  assumes rel: "st_rel n um cb cr h (bs, rs, m)"
  shows "\<exists>st' h'. addSecret (bs, rs, m) s = Inr st' \<and>
           addSecret_st cb cr um s h = (h', Inr ()) \<and> st_rel n um cb cr h' st'"
proof -
  note fit = fit_existing_st_refines[OF rel, of 0 s]
  show ?thesis
  proof (cases "fit_existing 0 (bs, rs, m) s")
    case (Inl e)
    with fit show ?thesis by simp
  next
    case (Inr res)
    show ?thesis
    proof (cases res)
      case None
      with Inr fit have q: "fit_existing_st 0 cb cr um s h = (h, Inr False)" by simp
      from open_batch_refines[OF rel, of s] obtain h' where
        ob: "open_batch cb cr um s h = (h', Inr ())"
        and rel': "st_rel n um cb cr h' (bs @ [addRoot [1] s], rs @ [[s]], m(toString s \<mapsto> length rs))"
        by blast
      have p: "addSecret (bs, rs, m) s =
          Inr (bs @ [addRoot [1] s], rs @ [[s]], m(toString s \<mapsto> length rs))"
        using Inr None by (simp add: addSecret_def Let_def)
      have "addSecret_st cb cr um s h = (h', Inr ())" using q ob by (simp add: addSecret_st_def)
      with p rel' show ?thesis by blast
    next
      case (Some st')
      with Inr fit obtain h' where
        q: "fit_existing_st 0 cb cr um s h = (h', Inr True)" and rel': "st_rel n um cb cr h' st'"
        by auto
      have p: "addSecret (bs, rs, m) s = Inr st'" using Inr Some by (simp add: addSecret_def)
      have "addSecret_st cb cr um s h = (h', Inr ())" using q by (simp add: addSecret_st_def)
      with p rel' show ?thesis by blast
    qed
  qed
qed

lemma addSecrets_loop_st_refines:
  "st_rel n um cb cr h st \<Longrightarrow>
   \<exists>st' h'. addSecrets_loop st ss = Inr st' \<and>
     addSecrets_loop_st cb cr um ss h = (h', Inr ()) \<and> st_rel n um cb cr h' st'"
proof (induction ss arbitrary: h st)
  case Nil
  then show ?case by simp
next
  case (Cons s ss)
  obtain bs rs m where st: "st = (bs, rs, m)" by (cases st)
  from addSecret_st_refines[OF Cons.prems[unfolded st], of s] obtain st1 h1 where
    p1: "addSecret (bs, rs, m) s = Inr st1" and q1: "addSecret_st cb cr um s h = (h1, Inr ())"
    and rel1: "st_rel n um cb cr h1 st1" by blast
  from Cons.IH[OF rel1] obtain st' h' where
    p: "addSecrets_loop st1 ss = Inr st'" and q: "addSecrets_loop_st cb cr um ss h1 = (h', Inr ())"
    and rel': "st_rel n um cb cr h' st'" by blast
  have "addSecrets_loop st (s # ss) = Inr st'" using p1 p st by simp
  moreover have "addSecrets_loop_st cb cr um (s # ss) h = (h', Inr ())" using q1 q by simp
  ultimately show ?case using rel' by blast
qed

lemma copy_each_refines:
  "length olds = length rs \<Longrightarrow>
   (\<forall>i. i < length rs \<longrightarrow> read_bigints h (olds ! i) = Some (rs ! i)) \<Longrightarrow>
   \<exists>ext. copy_each h (map VRef olds) =
            (h @ ext, Some (map VRef [length h ..< length h + length rs])) \<and>
          length ext = length rs \<and>
          (\<forall>i. i < length rs \<longrightarrow> read_bigints (h @ ext) (length h + i) = Some (rs ! i))"
proof (induction olds arbitrary: rs h)
  case Nil
  then show ?case by simp
next
  case (Cons a olds)
  then obtain x rs' where rs: "rs = x # rs'" by (cases rs) auto
  from Cons.prems(2) rs have "read_bigints h a = Some x" by auto
  from read_bigints_Some[OF this] obtain vs where
    al: "a < length h" and ha: "h ! a = ArrayObj vs" and vs: "the_bigints vs = Some x" by blast
  have ra: "read_array h a = Some vs" using ha al by (simp add: read_array_def)
  let ?h1 = "h @ [ArrayObj vs]"
  have len': "length olds = length rs'" using Cons.prems(1) rs by simp
  have reads': "\<forall>i. i < length rs' \<longrightarrow> read_bigints ?h1 (olds ! i) = Some (rs' ! i)"
  proof (intro allI impI)
    fix i assume i: "i < length rs'"
    with Cons.prems(2) rs have r: "read_bigints h (olds ! i) = Some (rs' ! i)" by auto
    from read_bigints_Some[OF r] have "olds ! i < length h" by simp
    then have "read_bigints ?h1 (olds ! i) = read_bigints h (olds ! i)"
      by (simp add: read_bigints_def read_array_def nth_append)
    with r show "read_bigints ?h1 (olds ! i) = Some (rs' ! i)" by simp
  qed
  from Cons.IH[OF len' reads'] obtain ext' where
    ce: "copy_each ?h1 (map VRef olds) =
           (?h1 @ ext', Some (map VRef [length ?h1 ..< length ?h1 + length rs']))"
    and le: "length ext' = length rs'"
    and rd: "\<forall>i. i < length rs' \<longrightarrow> read_bigints (?h1 @ ext') (length ?h1 + i) = Some (rs' ! i)"
    by blast
  have upt: "[length h ..< length h + length rs] =
             length h # [length ?h1 ..< length ?h1 + length rs']"
  proof -
    have "[length h ..< length h + length rs] = length h # [Suc (length h) ..< length h + length rs]"
      using rs by (intro upt_conv_Cons) simp
    then show ?thesis using rs by simp
  qed
  have run: "copy_each h (map VRef (a # olds)) =
            (h @ (ArrayObj vs # ext'), Some (map VRef [length h ..< length h + length rs]))"
    using ra ce by (simp add: alloc_def upt)
  have reads: "\<forall>i. i < length rs \<longrightarrow>
        read_bigints (h @ (ArrayObj vs # ext')) (length h + i) = Some (rs ! i)"
  proof (intro allI impI)
    fix i assume i: "i < length rs"
    show "read_bigints (h @ (ArrayObj vs # ext')) (length h + i) = Some (rs ! i)"
    proof (cases i)
      case 0
      then show ?thesis using vs rs by (simp add: read_bigints_def read_array_def nth_append)
    next
      case (Suc j)
      with i rs have j: "j < length rs'" by simp
      from rd j have "read_bigints (?h1 @ ext') (length ?h1 + j) = Some (rs' ! j)" by simp
      then show ?thesis using Suc rs by simp
    qed
  qed
  show ?case
    using run reads le rs by (intro exI[of _ "ArrayObj vs # ext'"]) simp
qed

lemma st_rel_holds:
  "st_rel n um cb cr h (bs, rs, m) \<Longrightarrow>
   holds_lists h cb bs \<and> holds_lists h cr rs \<and> h ! um = MapObj m"
  unfolding st_rel_def holds_lists_def prod.case
  by (elim conjE exE) (auto simp add: read_array_def)

text \<open>
  The two models of \<open>addSecretsToBatches\<close> agree. When the arguments are of the
  documented types (arrays of arrays of bigints of equal number, a \<open>Map\<close>, an array of
  bigints), the run on the store returns, the run on the values the store holds
  succeeds, and the arrays and the map that the first returns hold the lists and the
  map that the second returns.
\<close>

lemma addSecretsToBatches_st_refines:
  assumes hb: "holds_lists h batches bs" and hr: "holds_lists h batchRoots rs"
    and len: "length bs = length rs"
    and um: "userMap < length h" and hm: "h ! userMap = MapObj m"
    and sec: "read_bigints h newSecrets = Some secrets"
  shows "\<exists>h' cb cr bs' rs' m'.
     addSecretsToBatches_st batches batchRoots userMap newSecrets h = (h', Inr (cb, cr, userMap)) \<and>
     addSecretsToBatches bs rs m secrets = Inr (bs', rs', m') \<and>
     holds_lists h' cb bs' \<and> holds_lists h' cr rs' \<and> h' ! userMap = MapObj m'"
proof -
  from hb obtain prefs where
    rab: "read_array h batches = Some (map VRef prefs)" and lp: "length prefs = length bs"
    and pb: "\<forall>i. i < length bs \<longrightarrow> read_bigints h (prefs ! i) = Some (bs ! i)"
    by (auto simp add: holds_lists_def)
  from hr obtain olds where
    rar: "read_array h batchRoots = Some (map VRef olds)" and lo: "length olds = length rs"
    and ob: "\<forall>i. i < length rs \<longrightarrow> read_bigints h (olds ! i) = Some (rs ! i)"
    by (auto simp add: holds_lists_def)
  let ?n = "length h"
  let ?h1 = "h @ [ArrayObj (map VRef prefs)]"
  have rar1: "read_array ?h1 batchRoots = Some (map VRef olds)"
    using rar by (auto simp add: read_array_def nth_append split: if_splits)
  have ob1: "\<forall>i. i < length rs \<longrightarrow> read_bigints ?h1 (olds ! i) = Some (rs ! i)"
  proof (intro allI impI)
    fix i assume "i < length rs"
    with ob have r: "read_bigints h (olds ! i) = Some (rs ! i)" by simp
    from read_bigints_Some[OF r] have "olds ! i < length h" by simp
    then have "read_bigints ?h1 (olds ! i) = read_bigints h (olds ! i)"
      by (simp add: read_bigints_def read_array_def nth_append)
    with r show "read_bigints ?h1 (olds ! i) = Some (rs ! i)" by simp
  qed
  from copy_each_refines[OF lo ob1] obtain ext where
    ce: "copy_each ?h1 (map VRef olds) =
           (?h1 @ ext, Some (map VRef [length ?h1 ..< length ?h1 + length rs]))"
    and le: "length ext = length rs"
    and rd: "\<forall>i. i < length rs \<longrightarrow> read_bigints (?h1 @ ext) (length ?h1 + i) = Some (rs ! i)"
    by blast
  define news where "news = [length ?h1 ..< length ?h1 + length rs]"
  define h2 where "h2 = ?h1 @ ext"
  define h3 where "h3 = h2 @ [ArrayObj (map VRef news)]"
  define cb where "cb = length h"
  define cr where "cr = length h2"
  have ce': "copy_each ?h1 (map VRef olds) = (h2, Some (map VRef news))"
    using ce by (simp only: news_def h2_def)
  have l3: "length h3 = length h + length rs + 2" by (simp add: h3_def h2_def le)
  have crv: "cr = length h + length rs + 1" by (simp add: cr_def h2_def le)
  have old3: "h3 ! a = h ! a" if "a < length h" for a
    using that by (simp add: h3_def h2_def nth_append)
  have sec3: "read_bigints h3 newSecrets = Some secrets"
  proof -
    from read_bigints_Some[OF sec] have "newSecrets < length h" by simp
    then have "read_bigints h3 newSecrets = read_bigints h newSecrets"
      using old3[of newSecrets] l3 by (simp add: read_bigints_def read_array_def)
    with sec show ?thesis by simp
  qed
  have news_props: "\<forall>a. a \<in> set news \<longrightarrow> length h < a \<and> a < cr"
    unfolding news_def by (simp only: set_upt) (auto simp add: crv)
  have rel3: "st_rel ?n userMap cb cr h3 (bs, rs, m)"
  proof -
    have h3cb: "h3 ! cb = ArrayObj (map VRef prefs)"
      by (simp add: h3_def h2_def cb_def nth_append)
    have h3cr: "h3 ! cr = ArrayObj (map VRef news)"
      unfolding h3_def cr_def by (rule nth_append_length)
    have pl: "\<forall>a. a \<in> set prefs \<longrightarrow> a < length h"
    proof (intro allI impI)
      fix a assume "a \<in> set prefs"
      then obtain i where i: "i < length prefs" "prefs ! i = a" by (auto simp add: in_set_conv_nth)
      with pb lp have "read_bigints h a = Some (bs ! i)" by auto
      from read_bigints_Some[OF this] show "a < length h" by simp
    qed
    have rr: "\<forall>a. a \<in> set news \<longrightarrow>
        ?n \<le> a \<and> a < length h3 \<and> a \<noteq> cb \<and> a \<noteq> cr \<and> a \<notin> set prefs"
    proof (intro allI impI)
      fix a assume "a \<in> set news"
      with news_props have a: "length h < a" "a < cr" by auto
      have "a \<notin> set prefs"
      proof
        assume "a \<in> set prefs"
        with pl have "a < length h" by simp
        with a show False by simp
      qed
      with a l3 crv show "?n \<le> a \<and> a < length h3 \<and> a \<noteq> cb \<and> a \<noteq> cr \<and> a \<notin> set prefs"
        by (simp add: cb_def)
    qed
    have pr: "\<forall>a. a \<in> set prefs \<longrightarrow> a < length h3 \<and> a \<noteq> cb \<and> a \<noteq> cr"
      using pl l3 crv by (auto simp add: cb_def)
    have pb3: "\<forall>i. i < length bs \<longrightarrow> read_bigints h3 (prefs ! i) = Some (bs ! i)"
    proof (intro allI impI)
      fix i assume i: "i < length bs"
      then have "prefs ! i < length h" using pl lp by simp
      then have "read_bigints h3 (prefs ! i) = read_bigints h (prefs ! i)"
        using old3[of "prefs ! i"] l3 by (simp add: read_bigints_def read_array_def)
      with pb i show "read_bigints h3 (prefs ! i) = Some (bs ! i)" by simp
    qed
    have rb3: "\<forall>i. i < length rs \<longrightarrow> read_bigints h3 (news ! i) = Some (rs ! i)"
    proof (intro allI impI)
      fix i assume i: "i < length rs"
      then have ni: "news ! i = length ?h1 + i" unfolding news_def by (intro nth_upt) simp
      have lt: "length ?h1 + i < length (?h1 @ ext)" using i le by simp
      have "read_bigints h3 (length ?h1 + i) = read_bigints (?h1 @ ext) (length ?h1 + i)"
        using lt unfolding h3_def h2_def by (simp add: read_bigints_def read_array_def nth_append)
      with rd i ni show "read_bigints h3 (news ! i) = Some (rs ! i)" by simp
    qed
    have ln: "length news = length rs" unfolding news_def by (simp only: length_upt diff_add_inverse)
    have dn: "distinct news" unfolding news_def by (rule distinct_upt)
    have ex: "\<exists>prefs' rrefs'.
           h3 ! cb = ArrayObj (map VRef prefs') \<and> h3 ! cr = ArrayObj (map VRef rrefs') \<and>
           length prefs' = length bs \<and> length rrefs' = length rs \<and> distinct rrefs' \<and>
           (\<forall>a. a \<in> set rrefs' \<longrightarrow> ?n \<le> a \<and> a < length h3 \<and> a \<noteq> cb \<and> a \<noteq> cr \<and> a \<notin> set prefs') \<and>
           (\<forall>a. a \<in> set prefs' \<longrightarrow> a < length h3 \<and> a \<noteq> cb \<and> a \<noteq> cr) \<and>
           (\<forall>j. j < length bs \<longrightarrow> read_bigints h3 (prefs' ! j) = Some (bs ! j)) \<and>
           (\<forall>j. j < length rs \<longrightarrow> read_bigints h3 (rrefs' ! j) = Some (rs ! j))"
      apply (rule exI[of _ prefs])
      apply (rule exI[of _ news])
      using h3cb h3cr lp ln dn rr pr pb3 rb3 by simp
    show ?thesis
      unfolding st_rel_def prod.case
      using um len l3 crv old3[of userMap] hm ex by (simp add: cb_def)
  qed
  from addSecrets_loop_st_refines[OF rel3, of secrets] obtain st' h' where
    p: "addSecrets_loop (bs, rs, m) secrets = Inr st'"
    and q: "addSecrets_loop_st cb cr userMap secrets h3 = (h', Inr ())"
    and rel': "st_rel ?n userMap cb cr h' st'" by blast
  obtain bs' rs' m' where st': "st' = (bs', rs', m')" by (cases st')
  have run: "addSecretsToBatches_st batches batchRoots userMap newSecrets h =
             (h', Inr (cb, cr, userMap))"
    using q
    by (simp add: addSecretsToBatches_st_def alloc_def rab rar1 ce' sec3 h3_def[symmetric]
          cb_def[symmetric] cr_def[symmetric])
  have pure: "addSecretsToBatches bs rs m secrets = Inr (bs', rs', m')"
    using p st' by (simp add: addSecretsToBatches_def)
  from st_rel_holds[OF rel'[unfolded st']] run pure show ?thesis by blast
qed

section \<open>Root removal on the store: the claim\<close>

lemma the_bigints_map_conv: "the_bigints vs = Some xs \<Longrightarrow> vs = map VBigInt xs"
proof (induction vs arbitrary: xs)
  case Nil
  then show ?case by simp
next
  case (Cons v vs)
  then show ?case by (cases v) (auto split: option.splits)
qed

text \<open>
  The loop on the store, started on an \<open>oldPoly\<close> holding the coefficients \<open>P\<close> and a
  distinct \<open>newPoly\<close> holding \<open>Q\<close>, returns; the only object it has written to is
  \<open>newPoly\<close>; and its answer is that of the loop on values.
\<close>

lemma removeRoot_loop_st_run:
  assumes "oldPoly < length h" and "h ! oldPoly = ArrayObj (map VBigInt P)"
    and "newPoly < length h" and "newPoly \<noteq> oldPoly"
    and "h ! newPoly = ArrayObj (map VBigInt Q)"
    and "k < length P" and "k \<le> length Q"
  shows "\<exists>Q'. length Q' = length Q \<and>
           removeRoot_loop_st oldPoly r newPoly k carry h =
             Some (h[newPoly := ArrayObj (map VBigInt Q')],
                   map_option (\<lambda>q. newPoly) (removeRoot_loop P r k Q carry)) \<and>
           (\<forall>Q''. removeRoot_loop P r k Q carry = Some Q'' \<longrightarrow> Q'' = Q')"
  using assms
proof (induction k arbitrary: Q carry h)
  case 0
  have rd: "read_index h oldPoly 0 = Some (P ! 0)"
    using 0 by (simp add: read_index_def read_array_def)
  have id: "h[newPoly := ArrayObj (map VBigInt Q)] = h"
    using 0 by (metis list_update_id)
  show ?case
    by (rule exI[of _ Q]) (simp add: rd id Let_def)
next
  case (Suc k)
  let ?coeff = "modp (P ! Suc k + carry)"
  let ?h1 = "h[newPoly := ArrayObj (map VBigInt (Q[k := ?coeff]))]"
  have rd: "read_index h oldPoly (Suc k) = Some (P ! Suc k)"
    using Suc.prems by (simp add: read_index_def read_array_def)
  have wr: "write_index h newPoly k (VBigInt ?coeff) = Some ?h1"
    using Suc.prems by (simp add: write_index_def read_array_def map_update)
  have "\<exists>Q'. length Q' = length (Q[k := ?coeff]) \<and>
           removeRoot_loop_st oldPoly r newPoly k (modp (?coeff * r)) ?h1 =
             Some (?h1[newPoly := ArrayObj (map VBigInt Q')],
                   map_option (\<lambda>q. newPoly)
                     (removeRoot_loop P r k (Q[k := ?coeff]) (modp (?coeff * r)))) \<and>
           (\<forall>Q''. removeRoot_loop P r k (Q[k := ?coeff]) (modp (?coeff * r)) = Some Q''
                   \<longrightarrow> Q'' = Q')"
    using Suc.prems by (intro Suc.IH) simp_all
  then obtain Q' where
    l: "length Q' = length Q" and
    run: "removeRoot_loop_st oldPoly r newPoly k (modp (?coeff * r)) ?h1 =
             Some (?h1[newPoly := ArrayObj (map VBigInt Q')],
                   map_option (\<lambda>q. newPoly)
                     (removeRoot_loop P r k (Q[k := ?coeff]) (modp (?coeff * r))))" and
    un: "\<forall>Q''. removeRoot_loop P r k (Q[k := ?coeff]) (modp (?coeff * r)) = Some Q''
                   \<longrightarrow> Q'' = Q'"
    by auto
  show ?case
    using l run un by (intro exI[of _ Q']) (simp add: rd wr Let_def)
qed

text \<open>On an array of fewer than two slots the call throws and the store is as it was.\<close>

lemma removeRoot_st_short:
  "read_array h oldPoly = Some vs \<Longrightarrow> length vs < 2 \<Longrightarrow>
   removeRoot_st h oldPoly r = Some (h, Inl DegreeTooLow)"
  by (simp add: removeRoot_st_def Let_def)

text \<open>The two example runs: a rejected removal and a removal that succeeds.\<close>

lemma removal_store_null:
  "removeRoot_st removal_store 0 5 =
     Some (removal_store @ [ArrayObj [VBigInt 1]], Inr None)"
  by (simp add: removeRoot_st_def removal_store_def read_array_def alloc_def read_index_def
        write_index_def modp_eq_mod Let_def) (simp add: bn_254_fp_def)

lemma removal_store_quotient:
  "removeRoot_st removal_store 1 2 =
     Some (removal_store @ [ArrayObj [VBigInt (bn_254_fp - 3), VBigInt 1]], Inr (Some 2))"
  by (simp add: removeRoot_st_def removal_store_def read_array_def alloc_def read_index_def
        write_index_def modp_eq_mod Let_def numeral_2_eq_2) (simp add: bn_254_fp_def)

text \<open>
  Claim C3. Let \<open>oldPoly\<close> be the address of an array holding the coefficients \<open>P\<close> of a
  polynomial of degree at least 1 (two coefficients or more), and \<open>r\<close> any bigint. The
  call \<open>removeRoot(oldPoly, r)\<close> returns, without throwing, and it returns \<open>null\<close>
  exactly when \<open>P\<close> evaluates to a nonzero field value at \<open>r\<close>, that is, exactly
  when \<open>verifyPolynomial\<close> answers false. Whether it returns \<open>null\<close> or a quotient,
  every object that was in the store before the call is the same after it; the array
  at \<open>oldPoly\<close> in particular still holds \<open>P\<close>. The one object the call has added is
  the array it allocated, and a quotient that is returned is that array. The answer is
  that of \<open>removeRoot\<close> on the value \<open>P\<close>.
\<close>

theorem removeRoot_st_null_iff_not_root:
  assumes rd: "read_bigints h oldPoly = Some P" and len: "2 \<le> length P"
  shows "\<exists>h' res.
           removeRoot_st h oldPoly r = Some (h', Inr res) \<and>
           (res = None) = (evaluate P r \<noteq> 0) \<and>
           (res = None) = (\<not> verifyPolynomial P r) \<and>
           removeRoot P r = Inr (Option.bind res (read_bigints h')) \<and>
           (res = None \<or> res = Some (length h)) \<and>
           length h' = length h + 1 \<and>
           (\<forall>a. a < length h \<longrightarrow> h' ! a = h ! a) \<and>
           read_bigints h' oldPoly = Some P"
proof -
  from read_bigints_Some[OF rd] obtain vs where
    a: "oldPoly < length h" and hv: "h ! oldPoly = ArrayObj vs" and tb: "the_bigints vs = Some P"
    by blast
  from tb have vs: "vs = map VBigInt P" by (rule the_bigints_map_conv)
  define n where "n = length P - 1"
  define h1 where "h1 = h @ [ArrayObj (replicate n (VBigInt 0))]"
  define pure where "pure = removeRoot_loop P r n (replicate n 0) 0"
  have npos: "0 < n" "n < length P" using len by (simp_all add: n_def)
  have "\<exists>Q'. length Q' = length (replicate n (0::int)) \<and>
           removeRoot_loop_st oldPoly r (length h) n 0 h1 =
             Some (h1[length h := ArrayObj (map VBigInt Q')],
                   map_option (\<lambda>q. length h) (removeRoot_loop P r n (replicate n 0) 0)) \<and>
           (\<forall>Q''. removeRoot_loop P r n (replicate n 0) 0 = Some Q'' \<longrightarrow> Q'' = Q')"
    using a hv npos
    by (intro removeRoot_loop_st_run) (simp_all add: h1_def nth_append vs)
  then obtain Q' where
    run: "removeRoot_loop_st oldPoly r (length h) n 0 h1 =
            Some (h1[length h := ArrayObj (map VBigInt Q')], map_option (\<lambda>q. length h) pure)" and
    un: "\<forall>Q''. pure = Some Q'' \<longrightarrow> Q'' = Q'"
    unfolding pure_def by blast
  define h' where "h' = h @ [ArrayObj (map VBigInt Q')]"
  have h1upd: "h1[length h := ArrayObj (map VBigInt Q')] = h'"
    by (simp add: h1_def h'_def)
  have ra: "read_array h oldPoly = Some vs"
    using a hv by (simp add: read_array_def)
  have al: "alloc h (ArrayObj (replicate n (VBigInt 0))) = (h1, length h)"
    by (simp add: alloc_def h1_def)
  have st: "removeRoot_st h oldPoly r = Some (h', Inr (map_option (\<lambda>q. length h) pure))"
  proof -
    have lv: "length vs = length P" by (simp add: vs)
    have g: "\<not> int (length vs) - 1 \<le> 0" using len lv by simp
    have m: "nat (int (length vs) - 1) = n" using lv by (simp add: n_def)
    show ?thesis
      unfolding removeRoot_st_def ra Let_def
      by (simp only: g m al run h1upd option.case prod.case if_False)
  qed
  have pr: "removeRoot P r = Inr pure"
  proof -
    have g: "\<not> int (length P) - 1 \<le> 0" using len by simp
    have m: "nat (int (length P) - 1) = n" by (simp add: n_def)
    show ?thesis
      unfolding removeRoot_def Let_def pure_def
      by (simp only: g m if_False)
  qed
  have new: "read_bigints h' (length h) = Some Q'"
    by (simp add: h'_def read_bigints_def read_array_def the_bigints_map)
  have bind: "Option.bind (map_option (\<lambda>q. length h) pure) (read_bigints h') = pure"
    using un new by (cases pure) simp_all
  have frame: "\<forall>a. a < length h \<longrightarrow> h' ! a = h ! a"
    by (simp add: h'_def nth_append)
  have old: "read_bigints h' oldPoly = Some P"
    using a rd by (simp add: read_bigints_def read_array_def h'_def nth_append)
  have iff1: "(pure = None) = (evaluate P r \<noteq> 0)"
    using conjunct1[OF removeRoot_null_iff[OF len, of r]] unfolding pr by simp
  have iff2: "(pure = None) = (\<not> verifyPolynomial P r)"
    using iff1 by (simp add: verifyPolynomial_def)
  show ?thesis
    apply (rule exI[of _ h'])
    apply (rule exI[of _ "map_option (\<lambda>q. length h) pure"])
    using st iff1 iff2 pr bind frame old
    by (cases pure) (simp_all add: h'_def)
qed

theorem removeRoot_st_null_iff_not_root_witness:
  "read_bigints removal_store 0 = Some [2, 1] \<and> 2 \<le> length [2, 1 :: int] \<and>
   evaluate [2, 1] 5 = 7 \<and>
   removeRoot_st removal_store 0 5 = Some (removal_store @ [ArrayObj [VBigInt 1]], Inr None) \<and>
   removeRoot [2, 1] 5 = Inr None \<and>
   (removal_store @ [ArrayObj [VBigInt 1]]) ! 0 = ArrayObj [VBigInt 2, VBigInt 1] \<and>
   (removal_store @ [ArrayObj [VBigInt 1]]) ! 1 = ArrayObj [VBigInt 6, VBigInt (- 5), VBigInt 1] \<and>
   read_bigints (removal_store @ [ArrayObj [VBigInt 1]]) 0 = Some [2, 1] \<and>
   read_bigints removal_store 1 = Some [6, - 5, 1] \<and> 2 \<le> length [6, - 5, 1 :: int] \<and>
   evaluate [6, - 5, 1] 2 = 0 \<and>
   removeRoot_st removal_store 1 2 =
     Some (removal_store @ [ArrayObj [VBigInt (bn_254_fp - 3), VBigInt 1]], Inr (Some 2)) \<and>
   removeRoot [6, - 5, 1] 2 = Inr (Some [bn_254_fp - 3, 1]) \<and>
   read_bigints (removal_store @ [ArrayObj [VBigInt (bn_254_fp - 3), VBigInt 1]]) 1 =
     Some [6, - 5, 1]"
proof -
  have rd0: "read_bigints removal_store 0 = Some [2, 1]"
    by (simp add: removal_store_def read_bigints_def read_array_def)
  have rd1: "read_bigints removal_store 1 = Some [6, - 5, 1]"
    by (simp add: removal_store_def read_bigints_def read_array_def)
  have l0: "2 \<le> length [2, 1 :: int]" by simp
  have l1: "2 \<le> length [6, - 5, 1 :: int]" by simp
  have ev0: "evaluate [2, 1] 5 = 7"
    by (simp add: evaluate_def modp_eq_mod) (simp add: bn_254_fp_def)
  from removeRoot_st_null_iff_not_root[OF rd0 l0, of 5] obtain h' res where
    run0: "removeRoot_st removal_store 0 5 = Some (h', Inr res)" and
    null0: "(res = None) = (evaluate [2, 1] 5 \<noteq> 0)" and
    pure0: "removeRoot [2, 1] 5 = Inr (Option.bind res (read_bigints h'))" and
    frame0: "\<forall>a. a < length removal_store \<longrightarrow> h' ! a = removal_store ! a" and
    old0: "read_bigints h' 0 = Some [2, 1]"
    by blast
  from run0 removal_store_null have h': "h' = removal_store @ [ArrayObj [VBigInt 1]]"
    by simp
  from null0 ev0 have res: "res = None" by simp
  have f0: "(removal_store @ [ArrayObj [VBigInt 1]]) ! 0 = ArrayObj [VBigInt 2, VBigInt 1]"
    using frame0 unfolding h' by (simp add: removal_store_def)
  have f1: "(removal_store @ [ArrayObj [VBigInt 1]]) ! 1 =
              ArrayObj [VBigInt 6, VBigInt (- 5), VBigInt 1]"
    using frame0 unfolding h' by (simp add: removal_store_def)
  from removeRoot_st_null_iff_not_root[OF rd1 l1, of 2] obtain h2 res2 where
    run1: "removeRoot_st removal_store 1 2 = Some (h2, Inr res2)" and
    null1: "(res2 = None) = (evaluate [6, - 5, 1] 2 \<noteq> 0)" and
    pure1: "removeRoot [6, - 5, 1] 2 = Inr (Option.bind res2 (read_bigints h2))" and
    old1: "read_bigints h2 1 = Some [6, - 5, 1]"
    by blast
  from run1 removal_store_quotient have
    h2: "h2 = removal_store @ [ArrayObj [VBigInt (bn_254_fp - 3), VBigInt 1]]" and
    res2: "res2 = Some 2"
    by simp_all
  from null1 res2 have ev1: "evaluate [6, - 5, 1] 2 = 0" by simp
  have q: "read_bigints h2 2 = Some [bn_254_fp - 3, 1]"
    unfolding h2 by (simp add: read_bigints_def read_array_def removal_store_def)
  from pure1 res2 q have p1: "removeRoot [6, - 5, 1] 2 = Inr (Some [bn_254_fp - 3, 1])"
    by simp
  from rd0 ev0 removal_store_null pure0 res f0 f1 old0 rd1 ev1 removal_store_quotient p1 old1
  show ?thesis
    unfolding h' h2 by simp
qed

end
